theory Spec2Isabelle
  imports Main "HOL-Library.Sublist" "HOL-Library.AList" "HOL-Library.Multiset"
begin

section \<open>Values, findings and analysis results\<close>

text \<open>
  The privacy filter (\<^verbatim>\<open>src/filters/PrivacyFilter.js\<close>) receives the content of a post
  from the HTTP layer, which only checks that it is truthy; it may therefore be a string or any
  other JSON value. Strings are lists of code units; this development covers code units
  below 256.
\<close>

datatype js_value = JString string | JNumber int | JNull | JUndefined

datatype js_error = TypeError

text \<open>One entry of \<^verbatim>\<open>analysis.detectedIssues\<close>.\<close>

record issue =
  issue_type :: string
  issue_value :: string
  issue_riskLevel :: string
  issue_position :: int
  detectionMethod :: string

text \<open>
  The \<^verbatim>\<open>analysis\<close> object of \<^verbatim>\<open>analyzeContent\<close>. The \<^verbatim>\<open>Map\<close> is an association list
  in insertion order; \<^verbatim>\<open>error\<close> is present only in the degraded result.
\<close>

record analysis =
  originalContent :: js_value
  filteredContent :: js_value
  detectedIssues :: "issue list"
  riskLevel :: string
  suggestions :: "string list"
  anonymizationMap :: "(string \<times> string) list"
  error :: "string option"

definition riskLevels_HIGH :: string where
  "riskLevels_HIGH = ''high''"

definition riskLevels_MEDIUM :: string where
  "riskLevels_MEDIUM = ''medium''"

definition riskLevels_LOW :: string where
  "riskLevels_LOW = ''low''"

section \<open>Regular expressions\<close>

text \<open>
  The detectors are written with the regular expressions of the host language. Only the
  constructs that occur in the patterns are modelled: character classes, sequence,
  alternation, greedy bounded and unbounded repetition and the word boundary \<^verbatim>\<open>\b\<close>.
  Groups do not matter, since only the whole match is used.
\<close>

datatype regex =
    Cls string
  | Seq regex regex
  | Alt regex regex
  | Rep regex nat "nat option"
  | WordB
  | Eps

text \<open>A matcher state: the code unit before the current position, and the rest of the input.\<close>

type_synonym mstate = "char option \<times> string"

definition lower_chars :: string where
  "lower_chars = ''abcdefghijklmnopqrstuvwxyz''"

definition upper_chars :: string where
  "upper_chars = ''ABCDEFGHIJKLMNOPQRSTUVWXYZ''"

definition digit_chars :: string where
  "digit_chars = ''0123456789''"

definition alnum_chars :: string where
  "alnum_chars = upper_chars @ lower_chars @ digit_chars"

definition word_chars :: string where
  "word_chars = lower_chars @ upper_chars @ digit_chars @ ''_''"

definition space_chars :: string where
  "space_chars = [CHR 0x09, CHR 0x0A, CHR 0x0B, CHR 0x0C, CHR 0x0D, CHR '' '', CHR 0xA0]"

text \<open>
  Under the \<^verbatim>\<open>i\<close> flag two code units match when their upper-case forms agree; for the
  classes of the patterns, which hold ASCII code units only, this is equality up to the case of
  an ASCII letter.
\<close>

definition swap_case :: "char \<Rightarrow> char" where
  "swap_case c =
     (case map_of (zip (lower_chars @ upper_chars) (upper_chars @ lower_chars)) c of
        Some d \<Rightarrow> d
      | None \<Rightarrow> c)"

definition cls_match :: "bool \<Rightarrow> string \<Rightarrow> char \<Rightarrow> bool" where
  "cls_match ci cs c = (c \<in> set cs \<or> (ci \<and> swap_case c \<in> set cs))"

definition is_word_char :: "char \<Rightarrow> bool" where
  "is_word_char c = (c \<in> set word_chars)"

definition is_space_char :: "char \<Rightarrow> bool" where
  "is_space_char c = (c \<in> set space_chars)"

text \<open>
  Greedy repetition with at least \<open>lo\<close> and at most \<open>n\<close> further iterations: an iteration is
  tried before the repetition is left, and once no iteration is owed any more, one that
  consumes nothing is rejected. The results are listed in the order in which backtracking
  would try them.
\<close>

fun rep :: "(mstate \<Rightarrow> mstate list) \<Rightarrow> nat \<Rightarrow> nat \<Rightarrow> mstate \<Rightarrow> mstate list" where
  "rep m lo 0 x = [x]"
| "rep m lo (Suc n) x =
     concat (map (rep m (lo - 1) n)
                 (if lo = 0 then filter (\<lambda>y. length (snd y) \<noteq> length (snd x)) (m x)
                  else m x))
     @ (if lo = 0 then [x] else [])"

primrec rmatch :: "bool \<Rightarrow> regex \<Rightarrow> mstate \<Rightarrow> mstate list" where
  "rmatch ci (Cls cs) x =
     (case snd x of
        [] \<Rightarrow> []
      | c # s \<Rightarrow> (if cls_match ci cs c then [(Some c, s)] else []))"
| "rmatch ci (Seq r1 r2) x = concat (map (rmatch ci r2) (rmatch ci r1 x))"
| "rmatch ci (Alt r1 r2) x = rmatch ci r1 x @ rmatch ci r2 x"
| "rmatch ci (Rep r lo hi) x =
     rep (rmatch ci r) lo (case hi of Some h \<Rightarrow> h | None \<Rightarrow> lo + length (snd x)) x"
| "rmatch ci WordB x =
     (let a = (case fst x of None \<Rightarrow> False | Some c \<Rightarrow> is_word_char c);
          b = (case snd x of [] \<Rightarrow> False | c # _ \<Rightarrow> is_word_char c)
      in if a \<noteq> b then [x] else [])"
| "rmatch ci Eps x = [x]"

text \<open>
  One \<^verbatim>\<open>exec\<close> of a regular expression: the first start position, from the current one on,
  at which the expression matches, with the matched text and the state after it.
\<close>

fun regex_exec :: "bool \<Rightarrow> regex \<Rightarrow> char option \<Rightarrow> string \<Rightarrow> (string \<times> mstate) option" where
  "regex_exec ci r p [] =
     (case rmatch ci r (p, []) of
        [] \<Rightarrow> None
      | y # _ \<Rightarrow> Some ([], y))"
| "regex_exec ci r p (c # s) =
     (case rmatch ci r (p, c # s) of
        [] \<Rightarrow> regex_exec ci r (Some c) s
      | y # _ \<Rightarrow> Some (take (length (c # s) - length (snd y)) (c # s), y))"

text \<open>
  \<^verbatim>\<open>String.prototype.match\<close> with a global expression: the matches from left to right, each
  search starting where the previous match ended, one code unit further after an empty match.
\<close>

function match_global :: "bool \<Rightarrow> regex \<Rightarrow> char option \<Rightarrow> string \<Rightarrow> string list" where
  "match_global ci r p s =
     (case regex_exec ci r p s of
        None \<Rightarrow> []
      | Some (m, y) \<Rightarrow>
          m # (if m = [] then (case snd y of [] \<Rightarrow> [] | c # s' \<Rightarrow> match_global ci r (Some c) s')
               else match_global ci r (fst y) (snd y)))"
  by pat_completeness auto

text \<open>The result of \<^verbatim>\<open>content.match(pattern)\<close>: \<^verbatim>\<open>null\<close> when there is no match.\<close>

definition string_match :: "regex \<times> bool \<Rightarrow> string \<Rightarrow> string list option" where
  "string_match pattern s =
     (case match_global (snd pattern) (fst pattern) None s of
        [] \<Rightarrow> None
      | ms \<Rightarrow> Some ms)"

text \<open>\<^verbatim>\<open>content.indexOf(needle)\<close>: the first position at which \<open>needle\<close> occurs, or \<open>-1\<close>.\<close>

fun indexOf_from :: "nat \<Rightarrow> string \<Rightarrow> string \<Rightarrow> int" where
  "indexOf_from k [] needle = (if needle = [] then int k else - 1)"
| "indexOf_from k (c # s) needle =
     (if prefix needle (c # s) then int k else indexOf_from (Suc k) s needle)"

definition indexOf :: "string \<Rightarrow> string \<Rightarrow> int" where
  "indexOf s needle = indexOf_from 0 s needle"

section \<open>The pattern registry\<close>

fun seqs :: "regex list \<Rightarrow> regex" where
  "seqs [] = Eps"
| "seqs [r] = r"
| "seqs (r # rs) = Seq r (seqs rs)"

fun alts :: "regex list \<Rightarrow> regex" where
  "alts [] = Cls []"
| "alts [r] = r"
| "alts (r # rs) = Alt r (alts rs)"

definition lit :: "string \<Rightarrow> regex" where
  "lit s = seqs (map (\<lambda>c. Cls [c]) s)"

definition rx_opt :: "regex \<Rightarrow> regex" where
  "rx_opt r = Rep r 0 (Some 1)"

definition rx_plus :: "regex \<Rightarrow> regex" where
  "rx_plus r = Rep r 1 None"

definition rx_star :: "regex \<Rightarrow> regex" where
  "rx_star r = Rep r 0 None"

definition rx_times :: "nat \<Rightarrow> regex \<Rightarrow> regex" where
  "rx_times n r = Rep r n (Some n)"

definition rx_digit :: regex where
  "rx_digit = Cls digit_chars"

definition rx_word :: regex where
  "rx_word = Cls word_chars"

definition rx_space :: regex where
  "rx_space = Cls space_chars"

text \<open>
  \<^verbatim>\<open>this.patterns\<close>: each expression with its \<^verbatim>\<open>i\<close> flag (all of them are global).
\<close>

definition patterns_email :: "regex \<times> bool" where
  "patterns_email =
     (seqs [WordB, rx_plus (Cls (alnum_chars @ ''._%+-'')), Cls ''@'',
            rx_plus (Cls (alnum_chars @ ''.-'')), Cls ''.'',
            Rep (Cls (upper_chars @ ''|'' @ lower_chars)) 2 None, WordB], True)"

definition patterns_phone :: "regex \<times> bool" where
  "patterns_phone =
     (seqs [rx_opt (seqs [rx_opt (Cls ''+''), Cls ''1'', rx_opt (Cls (''-.'' @ space_chars))]),
            rx_opt (Cls ''(''), rx_times 3 rx_digit, rx_opt (Cls '')''),
            rx_opt (Cls (''-.'' @ space_chars)), rx_times 3 rx_digit,
            rx_opt (Cls (''-.'' @ space_chars)), rx_times 4 rx_digit], False)"

definition patterns_ssn :: "regex \<times> bool" where
  "patterns_ssn =
     (seqs [WordB, rx_times 3 rx_digit, Cls ''-'', rx_times 2 rx_digit, Cls ''-'',
            rx_times 4 rx_digit, WordB], False)"

definition patterns_creditCard :: "regex \<times> bool" where
  "patterns_creditCard =
     (seqs [WordB, rx_times 4 rx_digit, rx_opt (Cls (''-'' @ space_chars)),
            rx_times 4 rx_digit, rx_opt (Cls (''-'' @ space_chars)),
            rx_times 4 rx_digit, rx_opt (Cls (''-'' @ space_chars)),
            rx_times 4 rx_digit, WordB], False)"

definition patterns_bankAccount :: "regex \<times> bool" where
  "patterns_bankAccount = (seqs [WordB, Rep rx_digit 8 (Some 17), WordB], False)"

definition patterns_routingNumber :: "regex \<times> bool" where
  "patterns_routingNumber = (seqs [WordB, rx_times 9 rx_digit, WordB], False)"

definition patterns_currency :: "regex \<times> bool" where
  "patterns_currency =
     (seqs [Cls ''$'', rx_plus (Cls (digit_chars @ '','')),
            rx_opt (seqs [Cls ''.'', rx_times 2 rx_digit])], False)"

definition street_words :: "string list" where
  "street_words =
     [''street'', ''st'', ''avenue'', ''ave'', ''road'', ''rd'', ''drive'', ''dr'', ''lane'',
      ''ln'', ''boulevard'', ''blvd'', ''way'', ''court'', ''ct'', ''place'', ''pl'']"

definition patterns_address :: "regex \<times> bool" where
  "patterns_address =
     (seqs [WordB, rx_plus rx_digit, rx_plus rx_space,
            rx_plus (Cls (alnum_chars @ space_chars @ '','')),
            alts (map lit street_words),
            rx_star (seqs [rx_plus rx_space, rx_plus (Cls (alnum_chars @ space_chars @ '',''))]),
            WordB], True)"

definition patterns_zipCode :: "regex \<times> bool" where
  "patterns_zipCode =
     (seqs [WordB, rx_times 5 rx_digit, rx_opt (seqs [Cls ''-'', rx_times 4 rx_digit]), WordB],
      False)"

definition patterns_coordinates :: "regex \<times> bool" where
  "patterns_coordinates =
     (seqs [WordB, rx_opt (Cls ''-''), Rep rx_digit 1 (Some 3), Cls ''.'', rx_plus rx_digit,
            Cls '','', rx_star rx_space, rx_opt (Cls ''-''), Rep rx_digit 1 (Some 3), Cls ''.'',
            rx_plus rx_digit, WordB], False)"

definition patterns_ipAddress :: "regex \<times> bool" where
  "patterns_ipAddress =
     (seqs [WordB, rx_times 3 (seqs [Rep rx_digit 1 (Some 3), Cls ''.'']),
            Rep rx_digit 1 (Some 3), WordB], False)"

definition patterns_apiKey :: "regex \<times> bool" where
  "patterns_apiKey = (seqs [WordB, Rep (Cls alnum_chars) 20 None, WordB], False)"

definition patterns_possibleNames :: "regex \<times> bool" where
  "patterns_possibleNames =
     (seqs [WordB, Cls upper_chars, rx_plus (Cls lower_chars), Cls '' '',
            Cls upper_chars, rx_plus (Cls lower_chars), WordB], False)"

definition companyIndicators :: "string list" where
  "companyIndicators =
     [''Inc'', ''LLC'', ''Corp'', ''Corporation'', ''Company'', ''Co'', ''Ltd'', ''Limited'',
      ''Partners'', ''Associates'', ''Group'', ''Holdings'', ''Enterprises'', ''Solutions'',
      ''Technologies'', ''Tech'', ''Systems'', ''Services'', ''Consulting'']"

text \<open>The expression built in \<^verbatim>\<open>detectCompanyNames\<close>, with flags \<^verbatim>\<open>gi\<close>.\<close>

definition companyPattern :: "regex \<times> bool" where
  "companyPattern =
     (seqs [WordB, rx_plus rx_word, rx_plus rx_space, alts (map lit companyIndicators), WordB],
      True)"

text \<open>The expression built in \<^verbatim>\<open>detectLocationContext\<close>, with flags \<^verbatim>\<open>gi\<close>.\<close>

definition locationPattern :: "regex \<times> bool" where
  "locationPattern =
     (seqs [WordB,
            alts (map lit [''located'', ''based'', ''office'', ''headquarters'', ''building'']),
            rx_plus rx_space, alts (map lit [''at'', ''in'', ''near'']), rx_plus rx_space,
            Cls upper_chars, rx_plus (Cls lower_chars),
            rx_star (seqs [rx_plus rx_space, Cls upper_chars, rx_plus (Cls lower_chars)]),
            WordB], True)"

section \<open>Detection\<close>

text \<open>
  A step of the analysis either returns the updated analysis or throws; the analysis as it
  was when the exception was thrown is kept, since the handler of \<^verbatim>\<open>analyzeContent\<close>
  reads it.
\<close>

type_synonym outcome = "(js_error \<times> analysis) + analysis"

fun run_steps :: "(analysis \<Rightarrow> outcome) list \<Rightarrow> analysis \<Rightarrow> outcome" where
  "run_steps [] a = Inr a"
| "run_steps (f # fs) a = (case f a of Inl e \<Rightarrow> Inl e | Inr a' \<Rightarrow> run_steps fs a')"

text \<open>
  \<^verbatim>\<open>detectAndAdd\<close>. Calling \<^verbatim>\<open>match\<close> on a content that is not a string throws a
  \<^verbatim>\<open>TypeError\<close>.
\<close>

definition detectAndAdd ::
  "js_value \<Rightarrow> regex \<times> bool \<Rightarrow> string \<Rightarrow> string \<Rightarrow> analysis \<Rightarrow> outcome" where
  "detectAndAdd content pattern type riskLevel' a =
     (case content of
        JString s \<Rightarrow>
          (case string_match pattern s of
             None \<Rightarrow> Inr a
           | Some matches \<Rightarrow>
               Inr (a\<lparr>detectedIssues := detectedIssues a @
                         map (\<lambda>match. \<lparr>issue_type = type, issue_value = match,
                                        issue_riskLevel = riskLevel',
                                        issue_position = indexOf s match,
                                        detectionMethod = ''pattern''\<rparr>) matches\<rparr>))
      | _ \<Rightarrow> Inl (TypeError, a))"

definition detectCompanyNames :: "js_value \<Rightarrow> analysis \<Rightarrow> outcome" where
  "detectCompanyNames content a =
     (case content of
        JString s \<Rightarrow>
          (case string_match companyPattern s of
             None \<Rightarrow> Inr a
           | Some matches \<Rightarrow>
               Inr (a\<lparr>detectedIssues := detectedIssues a @
                         map (\<lambda>match. \<lparr>issue_type = ''companyName'', issue_value = match,
                                        issue_riskLevel = ''MEDIUM'',
                                        issue_position = indexOf s match,
                                        detectionMethod = ''pattern''\<rparr>) matches\<rparr>))
      | _ \<Rightarrow> Inl (TypeError, a))"

definition detectLocationContext :: "js_value \<Rightarrow> analysis \<Rightarrow> outcome" where
  "detectLocationContext content a =
     (case content of
        JString s \<Rightarrow>
          (case string_match locationPattern s of
             None \<Rightarrow> Inr a
           | Some matches \<Rightarrow>
               Inr (a\<lparr>detectedIssues := detectedIssues a @
                         map (\<lambda>match. \<lparr>issue_type = ''locationContext'', issue_value = match,
                                        issue_riskLevel = ''MEDIUM'',
                                        issue_position = indexOf s match,
                                        detectionMethod = ''pattern''\<rparr>) matches\<rparr>))
      | _ \<Rightarrow> Inl (TypeError, a))"

definition detectPatternBasedIssues :: "js_value \<Rightarrow> analysis \<Rightarrow> outcome" where
  "detectPatternBasedIssues content =
     run_steps
       [detectAndAdd content patterns_email ''email'' ''HIGH'',
        detectAndAdd content patterns_phone ''phone'' ''HIGH'',
        detectAndAdd content patterns_ssn ''ssn'' ''HIGH'',
        detectAndAdd content patterns_creditCard ''creditCard'' ''HIGH'',
        detectAndAdd content patterns_bankAccount ''bankAccount'' ''HIGH'',
        detectAndAdd content patterns_routingNumber ''routingNumber'' ''HIGH'',
        detectAndAdd content patterns_currency ''currency'' ''MEDIUM'',
        detectAndAdd content patterns_address ''address'' ''MEDIUM'',
        detectAndAdd content patterns_zipCode ''zipCode'' ''MEDIUM'',
        detectAndAdd content patterns_coordinates ''coordinates'' ''HIGH'',
        detectAndAdd content patterns_ipAddress ''ipAddress'' ''MEDIUM'',
        detectAndAdd content patterns_apiKey ''apiKey'' ''HIGH'',
        detectCompanyNames content,
        detectLocationContext content]"

text \<open>
  The parsed reply of the external model, as the prompt asks for it: each list of strings may
  be absent.
\<close>

record aiAnalysis =
  personalNames :: "string list option"
  companyNames :: "string list option"
  financialInfo :: "string list option"
  locations :: "string list option"
  confidentialInfo :: "string list option"

definition ai_issues :: "string \<Rightarrow> string \<Rightarrow> string \<Rightarrow> string list option \<Rightarrow> issue list" where
  "ai_issues original type riskLevel' field =
     (case field of
        None \<Rightarrow> []
      | Some names \<Rightarrow>
          map (\<lambda>name. \<lparr>issue_type = type, issue_value = name, issue_riskLevel = riskLevel',
                       issue_position = indexOf original name,
                       detectionMethod = ''ai''\<rparr>) names)"

text \<open>
  \<^verbatim>\<open>addAIDetectedIssues\<close>; \<open>original\<close> is the text of \<^verbatim>\<open>analysis.originalContent\<close>.
\<close>

definition addAIDetectedIssues :: "aiAnalysis \<Rightarrow> string \<Rightarrow> analysis \<Rightarrow> analysis" where
  "addAIDetectedIssues ai original a =
     a\<lparr>detectedIssues := detectedIssues a
          @ ai_issues original ''personalName'' ''HIGH'' (personalNames ai)
          @ ai_issues original ''companyName'' ''MEDIUM'' (companyNames ai)
          @ ai_issues original ''financialInfo'' ''HIGH'' (financialInfo ai)
          @ ai_issues original ''location'' ''MEDIUM'' (locations ai)
          @ ai_issues original ''confidentialInfo'' ''HIGH'' (confidentialInfo ai)\<rparr>"

text \<open>
  \<^verbatim>\<open>detectAIBasedIssues\<close> catches every exception of its own. Its argument is the parsed
  reply when the request and the parsing succeed, and \<open>None\<close> when they do not; on a content
  that is not a string the first \<^verbatim>\<open>indexOf\<close> throws before anything is added.
\<close>

definition detectAIBasedIssues :: "aiAnalysis option \<Rightarrow> analysis \<Rightarrow> analysis" where
  "detectAIBasedIssues reply a =
     (case reply of
        None \<Rightarrow> a
      | Some ai \<Rightarrow>
          (case originalContent a of
             JString original \<Rightarrow> addAIDetectedIssues ai original a
           | _ \<Rightarrow> a))"

section \<open>Redaction\<close>

definition replacements :: "(string \<times> string) list" where
  "replacements =
     [(''email'', ''[EMAIL_REDACTED]''),
      (''phone'', ''[PHONE_REDACTED]''),
      (''ssn'', ''[SSN_REDACTED]''),
      (''creditCard'', ''[CARD_REDACTED]''),
      (''bankAccount'', ''[ACCOUNT_REDACTED]''),
      (''routingNumber'', ''[ROUTING_REDACTED]''),
      (''currency'', ''[AMOUNT_REDACTED]''),
      (''address'', ''[ADDRESS_REDACTED]''),
      (''zipCode'', ''[ZIP_REDACTED]''),
      (''coordinates'', ''[COORDINATES_REDACTED]''),
      (''ipAddress'', ''[IP_REDACTED]''),
      (''apiKey'', ''[API_KEY_REDACTED]''),
      (''personalName'', ''[NAME_REDACTED]''),
      (''companyName'', ''[COMPANY_REDACTED]''),
      (''financialInfo'', ''[FINANCIAL_INFO_REDACTED]''),
      (''location'', ''[LOCATION_REDACTED]''),
      (''locationContext'', ''[LOCATION_CONTEXT_REDACTED]''),
      (''confidentialInfo'', ''[CONFIDENTIAL_REDACTED]'')]"

definition getReplacementText :: "issue \<Rightarrow> string" where
  "getReplacementText issue =
     (case map_of replacements (issue_type issue) of
        Some r \<Rightarrow> r
      | None \<Rightarrow> ''[REDACTED]'')"

text \<open>
  \<^verbatim>\<open>[...analysis.detectedIssues].sort((a, b) => b.position - a.position)\<close>: a sort by
  descending position, stable as \<^verbatim>\<open>Array.prototype.sort\<close> is since ECMAScript 2019.
\<close>

definition sortedIssues :: "issue list \<Rightarrow> issue list" where
  "sortedIssues issues = sort_key (\<lambda>issue. - issue_position issue) issues"

text \<open>
  The body of the \<^verbatim>\<open>forEach\<close> of \<^verbatim>\<open>applyFilters\<close>, on the text so far and the map so far.
  \<^verbatim>\<open>substring\<close> clamps its arguments to the length of the text, as \<open>take\<close> and \<open>drop\<close> do.
\<close>

definition redact :: "issue \<Rightarrow> string \<times> (string \<times> string) list \<Rightarrow> string \<times> (string \<times> string) list" where
  "redact issue st =
     (if issue_position issue \<ge> 0 then
        (let replacement = getReplacementText issue;
             p = nat (issue_position issue)
         in (take p (fst st) @ replacement @ drop (p + length (issue_value issue)) (fst st),
             AList.update (issue_value issue) replacement (snd st)))
      else st)"

definition applyFilters :: "string \<Rightarrow> analysis \<Rightarrow> string \<times> analysis" where
  "applyFilters content a =
     (let st = fold redact (sortedIssues (detectedIssues a)) (content, anonymizationMap a)
      in (fst st, a\<lparr>anonymizationMap := snd st\<rparr>))"

section \<open>Risk and suggestions\<close>

definition calculateRiskLevel :: "issue list \<Rightarrow> string" where
  "calculateRiskLevel issues =
     (let highRiskCount = length (filter (\<lambda>issue. issue_riskLevel issue = ''HIGH'') issues);
          mediumRiskCount = length (filter (\<lambda>issue. issue_riskLevel issue = ''MEDIUM'') issues)
      in if highRiskCount > 0 then riskLevels_HIGH
         else if mediumRiskCount > 1 then riskLevels_HIGH
         else if mediumRiskCount > 0 then riskLevels_MEDIUM
         else riskLevels_LOW)"

text \<open>\<^verbatim>\<open>[...new Set(xs)]\<close>: the elements of \<open>xs\<close> in the order of their first occurrence.\<close>

definition new_Set :: "'a list \<Rightarrow> 'a list" where
  "new_Set xs = fold (\<lambda>x acc. if x \<in> set acc then acc else acc @ [x]) xs []"

definition suggestionMap :: "(string \<times> string) list" where
  "suggestionMap =
     [(''email'', ''Consider using a generic contact form instead of exposing email addresses''),
      (''phone'', ''Use a business phone number or contact form instead of personal numbers''),
      (''ssn'', ''Never share Social Security Numbers publicly''),
      (''creditCard'', ''Remove all payment card information from public posts''),
      (''bankAccount'', ''Banking details should never be shared publicly''),
      (''personalName'', ''Consider using first names only or role titles instead of full names''),
      (''companyName'', ''Evaluate if specific company names need to be mentioned publicly''),
      (''financialInfo'', ''Remove specific financial figures or use ranges instead''),
      (''location'', ''Consider using city/state instead of specific addresses''),
      (''address'', ''Use general location references instead of specific addresses''),
      (''confidentialInfo'', ''Remove any internal or confidential project information''),
      (''coordinates'', ''Remove GPS coordinates and location data''),
      (''ipAddress'', ''Remove IP addresses and technical identifiers''),
      (''apiKey'', ''Never expose API keys or authentication tokens'')]"

definition risk_warnings :: "string \<Rightarrow> string list" where
  "risk_warnings level =
     (if level = riskLevels_HIGH then
        [''HIGH RISK: This content contains sensitive information that should not be posted publicly'',
         ''Consider rewriting the content to remove all personal identifiers'']
      else if level = riskLevels_MEDIUM then
        [''MEDIUM RISK: Review the content for potentially sensitive information'',
         ''Consider using more general terms instead of specific details'']
      else [])"

definition type_advice :: "string \<Rightarrow> string list" where
  "type_advice type = (case map_of suggestionMap type of Some s \<Rightarrow> [s] | None \<Rightarrow> [])"

definition generateSuggestions :: "analysis \<Rightarrow> string list" where
  "generateSuggestions a =
     (let issueTypes = new_Set (map issue_type (detectedIssues a));
          suggestions' = concat (map type_advice issueTypes) @ risk_warnings (riskLevel a)
      in new_Set suggestions')"

section \<open>The facade\<close>

definition initial_analysis :: "js_value \<Rightarrow> analysis" where
  "initial_analysis content =
     \<lparr>originalContent = content, filteredContent = content, detectedIssues = [],
      riskLevel = riskLevels_LOW, suggestions = [], anonymizationMap = [], error = None\<rparr>"

text \<open>
  Step 3 of \<^verbatim>\<open>analyzeContent\<close>. On a content that is not a string, the first replacement
  throws (\<^verbatim>\<open>substring\<close> is not a function); without a replacement the content is returned.
\<close>

definition applyFilters_step :: "js_value \<Rightarrow> analysis \<Rightarrow> outcome" where
  "applyFilters_step content a =
     (case content of
        JString s \<Rightarrow>
          (let res = applyFilters s a in Inr ((snd res)\<lparr>filteredContent := JString (fst res)\<rparr>))
      | _ \<Rightarrow>
          (if list_ex (\<lambda>issue. issue_position issue \<ge> 0) (detectedIssues a)
           then Inl (TypeError, a)
           else Inr (a\<lparr>filteredContent := content\<rparr>)))"

text \<open>The body of the \<^verbatim>\<open>try\<close> block of \<^verbatim>\<open>analyzeContent\<close>.\<close>

definition analyzeContent_try :: "aiAnalysis option \<Rightarrow> js_value \<Rightarrow> outcome" where
  "analyzeContent_try reply content =
     run_steps
       [detectPatternBasedIssues content,
        (\<lambda>a. Inr (detectAIBasedIssues reply a)),
        applyFilters_step content,
        (\<lambda>a. Inr (a\<lparr>riskLevel := calculateRiskLevel (detectedIssues a)\<rparr>)),
        (\<lambda>a. Inr (a\<lparr>suggestions := generateSuggestions a\<rparr>))]
       (initial_analysis content)"

text \<open>
  \<^verbatim>\<open>analyzeContent\<close>. The first argument stands for the external model: \<open>None\<close> when no
  client is configured or its reply cannot be used, the parsed reply otherwise.
\<close>

definition analyzeContent :: "aiAnalysis option \<Rightarrow> js_value \<Rightarrow> analysis" where
  "analyzeContent reply content =
     (case analyzeContent_try reply content of
        Inr a \<Rightarrow> a
      | Inl (e, a) \<Rightarrow> a\<lparr>error := Some ''Privacy analysis failed'', riskLevel := riskLevels_HIGH\<rparr>)"

text \<open>
  The options of \<^verbatim>\<open>filterContent\<close>, both booleans that may be absent, and its result.
\<close>

record filter_options =
  enablePrivacyFilter :: "bool option"
  forcePrivacyFilter :: "bool option"

record filter_result =
  result_filteredContent :: js_value
  privacyAnalysis :: "analysis option"
  privacyFilterEnabled :: bool

text \<open>
  \<^verbatim>\<open>filterContent\<close>; \<open>env\<close> is the value of the environment variable
  \<^verbatim>\<open>ENABLE_PRIVACY_FILTER\<close>, when it is set.
\<close>

definition filterContent ::
  "string option \<Rightarrow> aiAnalysis option \<Rightarrow> js_value \<Rightarrow> filter_options \<Rightarrow> filter_result" where
  "filterContent env reply content options =
     (let enablePrivacyFilter' =
            (enablePrivacyFilter options \<noteq> Some False \<and>
             (env = Some ''true'' \<or> forcePrivacyFilter options = Some True))
      in if \<not> enablePrivacyFilter' then
           \<lparr>result_filteredContent = content, privacyAnalysis = None,
            privacyFilterEnabled = False\<rparr>
         else
           (let analysis' = analyzeContent reply content
            in \<lparr>result_filteredContent = filteredContent analysis',
                privacyAnalysis = Some analysis', privacyFilterEnabled = True\<rparr>))"

definition isContentSafe :: "aiAnalysis option \<Rightarrow> js_value \<Rightarrow> bool" where
  "isContentSafe reply content = (riskLevel (analyzeContent reply content) = riskLevels_LOW)"

section \<open>Notions used in the statements\<close>

text \<open>
  The words an expression can match, without regard to the word boundaries (which match
  the empty word).
\<close>

primrec lang :: "bool \<Rightarrow> regex \<Rightarrow> string set" where
  "lang ci (Cls cs) = {[c] | c. cls_match ci cs c}"
| "lang ci (Seq r1 r2) = {u @ v | u v. u \<in> lang ci r1 \<and> v \<in> lang ci r2}"
| "lang ci (Alt r1 r2) = lang ci r1 \<union> lang ci r2"
| "lang ci (Rep r lo hi) =
     {concat ws | ws. set ws \<subseteq> lang ci r \<and> (case hi of None \<Rightarrow> lo | Some h \<Rightarrow> min lo h) \<le> length ws}"
| "lang ci WordB = {[]}"
| "lang ci Eps = {[]}"


text \<open>
  The issues that one call of \<^verbatim>\<open>detectAndAdd\<close> adds for a text, those of all the
  pattern-based detectors in the order of \<^verbatim>\<open>detectPatternBasedIssues\<close>, and those of
  \<^verbatim>\<open>addAIDetectedIssues\<close>.
\<close>

definition found :: "regex \<times> bool \<Rightarrow> string \<Rightarrow> string \<Rightarrow> string \<Rightarrow> issue list" where
  "found pattern type riskLevel' s =
     map (\<lambda>match. \<lparr>issue_type = type, issue_value = match, issue_riskLevel = riskLevel',
                    issue_position = indexOf s match, detectionMethod = ''pattern''\<rparr>)
         (match_global (snd pattern) (fst pattern) None s)"

definition pattern_issues :: "string \<Rightarrow> issue list" where
  "pattern_issues s =
     found patterns_email ''email'' ''HIGH'' s
     @ found patterns_phone ''phone'' ''HIGH'' s
     @ found patterns_ssn ''ssn'' ''HIGH'' s
     @ found patterns_creditCard ''creditCard'' ''HIGH'' s
     @ found patterns_bankAccount ''bankAccount'' ''HIGH'' s
     @ found patterns_routingNumber ''routingNumber'' ''HIGH'' s
     @ found patterns_currency ''currency'' ''MEDIUM'' s
     @ found patterns_address ''address'' ''MEDIUM'' s
     @ found patterns_zipCode ''zipCode'' ''MEDIUM'' s
     @ found patterns_coordinates ''coordinates'' ''HIGH'' s
     @ found patterns_ipAddress ''ipAddress'' ''MEDIUM'' s
     @ found patterns_apiKey ''apiKey'' ''HIGH'' s
     @ found companyPattern ''companyName'' ''MEDIUM'' s
     @ found locationPattern ''locationContext'' ''MEDIUM'' s"

definition ai_found :: "aiAnalysis option \<Rightarrow> string \<Rightarrow> issue list" where
  "ai_found reply s =
     (case reply of
        None \<Rightarrow> []
      | Some ai \<Rightarrow>
          ai_issues s ''personalName'' ''HIGH'' (personalNames ai)
          @ ai_issues s ''companyName'' ''MEDIUM'' (companyNames ai)
          @ ai_issues s ''financialInfo'' ''HIGH'' (financialInfo ai)
          @ ai_issues s ''location'' ''MEDIUM'' (locations ai)
          @ ai_issues s ''confidentialInfo'' ''HIGH'' (confidentialInfo ai))"

definition all_issues :: "aiAnalysis option \<Rightarrow> string \<Rightarrow> issue list" where
  "all_issues reply s = pattern_issues s @ ai_found reply s"



text \<open>Equality of two code units up to the case of an ASCII letter.\<close>

definition eq_ignore_case :: "char \<Rightarrow> char \<Rightarrow> bool" where
  "eq_ignore_case c d = (c = d \<or> swap_case c = d)"

text \<open>A capitalized word, as the specification asks of an organization name.\<close>

definition capitalized :: "string \<Rightarrow> bool" where
  "capitalized v = (case v of [] \<Rightarrow> False | c # _ \<Rightarrow> c \<in> set upper_chars)"

text \<open>The code unit before the current position, after the matcher has consumed \<open>u\<close>.\<close>

definition prev_after :: "char option \<Rightarrow> string \<Rightarrow> char option" where
  "prev_after p u = (if u = [] then p else Some (last u))"

text \<open>The ASCII letters.\<close>

definition is_letter :: "char \<Rightarrow> bool" where
  "is_letter c = (c \<in> set (lower_chars @ upper_chars))"


text \<open>
  An analysis of the text \<^verbatim>\<open>123456789\<close> with the two findings that the bank account and
  the routing number detectors report for it.
\<close>

definition nine_digits_analysis :: analysis where
  "nine_digits_analysis =
     (initial_analysis (JString ''123456789''))
       \<lparr>detectedIssues :=
          [\<lparr>issue_type = ''bankAccount'', issue_value = ''123456789'', issue_riskLevel = ''HIGH'',
            issue_position = 0, detectionMethod = ''pattern''\<rparr>,
           \<lparr>issue_type = ''routingNumber'', issue_value = ''123456789'', issue_riskLevel = ''HIGH'',
            issue_position = 0, detectionMethod = ''pattern''\<rparr>]\<rparr>"

text \<open>The types of the findings of the pattern-based detectors.\<close>

definition pattern_types :: "string list" where
  "pattern_types =
     [''email'', ''phone'', ''ssn'', ''creditCard'', ''bankAccount'', ''routingNumber'',
      ''currency'', ''address'', ''zipCode'', ''coordinates'', ''ipAddress'', ''apiKey'',
      ''companyName'', ''locationContext'']"

text \<open>
  The invariant of a finding as the specification words it: the offset is an index into the
  original text at which the value stands.
\<close>

definition offset_invariant :: "string \<Rightarrow> issue \<Rightarrow> bool" where
  "offset_invariant text f =
     (0 \<le> issue_position f \<and>
      take (length (issue_value f)) (drop (nat (issue_position f)) text) = issue_value f)"

section \<open>Termination of the global match\<close>

lemma rep_length:
  assumes m: "\<And>x y. y \<in> set (m x) \<Longrightarrow> length (snd y) \<le> length (snd x)"
  shows "y \<in> set (rep m lo n x) \<Longrightarrow> length (snd y) \<le> length (snd x)"
proof (induction n arbitrary: lo x)
  case 0
  then show ?case by simp
next
  case (Suc n)
  from Suc.prems consider "y = x"
    | z where "z \<in> set (m x)" "y \<in> set (rep m (lo - 1) n z)"
    by (auto split: if_splits)
  then show ?case
  proof cases
    case 1
    then show ?thesis by simp
  next
    case 2
    from Suc.IH [OF 2(2)] m [OF 2(1)] show ?thesis by simp
  qed
qed

lemma rmatch_length: "y \<in> set (rmatch ci r x) \<Longrightarrow> length (snd y) \<le> length (snd x)"
proof (induction r arbitrary: x y)
  case (Cls cs)
  then show ?case by (cases x) (auto split: list.splits if_splits)
next
  case (Seq r1 r2)
  then obtain z where "z \<in> set (rmatch ci r1 x)" "y \<in> set (rmatch ci r2 z)"
    by auto
  with Seq.IH [of z x] Seq.IH(2) [of y z] show ?case by simp
next
  case (Alt r1 r2)
  from Alt.prems have "y \<in> set (rmatch ci r1 x) \<or> y \<in> set (rmatch ci r2 x)"
    by simp
  then show ?case using Alt.IH by blast
next
  case (Rep r lo hi)
  from Rep.prems show ?case
    by (auto intro: rep_length [of "rmatch ci r"] Rep.IH)
next
  case WordB
  then show ?case by (auto simp: Let_def split: if_splits)
next
  case Eps
  then show ?case by simp
qed

lemma regex_exec_length:
  "regex_exec ci r p s = Some (m, y) \<Longrightarrow>
     length (snd y) \<le> length s \<and> (m \<noteq> [] \<longrightarrow> length (snd y) < length s)"
proof (induction s arbitrary: p)
  case Nil
  then obtain zs where "rmatch ci r (p, []) = y # zs" and m: "m = []"
    by (auto split: list.splits)
  then have "y \<in> set (rmatch ci r (p, []))" by simp
  from rmatch_length [OF this] m show ?case by simp
next
  case (Cons c s)
  show ?case
  proof (cases "rmatch ci r (p, c # s)")
    case Nil
    with Cons.prems have "regex_exec ci r (Some c) s = Some (m, y)" by simp
    from Cons.IH [OF this] show ?thesis by auto
  next
    case (Cons z zs)
    with Cons.prems have y: "y = z" and m: "m = take (length (c # s) - length (snd y)) (c # s)"
      by auto
    from Cons y have "y \<in> set (rmatch ci r (p, c # s))" by simp
    from rmatch_length [OF this] have le: "length (snd y) \<le> length (c # s)" by simp
    show ?thesis
    proof (intro conjI impI)
      show "length (snd y) \<le> length (c # s)" by (rule le)
      assume "m \<noteq> []"
      with m have "length (c # s) - length (snd y) \<noteq> 0" by auto
      then show "length (snd y) < length (c # s)" by simp
    qed
  qed
qed

termination match_global
proof (relation "measure (\<lambda>(ci, r, p, s). length s)", goal_cases)
  case 1
  then show ?case by simp
next
  case (2 ci r p s x2 m y c s')
  then have "regex_exec ci r p s = Some (m, y)" by simp
  from regex_exec_length [OF this] 2 show ?case by (cases y) auto
next
  case (3 ci r p s x2 m y)
  then have "regex_exec ci r p s = Some (m, y)" by simp
  from regex_exec_length [OF this] 3 show ?case by (cases y) auto
qed

section \<open>Soundness of matching and of \<^verbatim>\<open>indexOf\<close>\<close>

lemma rep_lang:
  assumes m: "\<And>x y. y \<in> set (m x) \<Longrightarrow> \<exists>w. snd x = w @ snd y \<and> w \<in> L"
  shows "y \<in> set (rep m lo n x) \<Longrightarrow>
           \<exists>ws. snd x = concat ws @ snd y \<and> set ws \<subseteq> L \<and> min lo n \<le> length ws"
proof (induction n arbitrary: lo x)
  case 0
  then have "snd x = concat [] @ snd y" by simp
  then show ?case by (metis empty_set empty_subsetI list.size(3) min.cobounded2 le_refl min_0R)
next
  case (Suc n)
  from Suc.prems consider "lo = 0" "y = x"
    | z where "z \<in> set (m x)" "y \<in> set (rep m (lo - 1) n z)"
    by (auto split: if_splits)
  then show ?case
  proof cases
    case 1
    have "snd x = concat [] @ snd y \<and> set [] \<subseteq> L \<and> min lo (Suc n) \<le> length ([] :: string list)"
      using 1 by simp
    then show ?thesis by blast
  next
    case 2
    from Suc.IH [OF 2(2)] obtain ws where
      ws: "snd z = concat ws @ snd y" "set ws \<subseteq> L" "min (lo - 1) n \<le> length ws"
      by blast
    from m [OF 2(1)] obtain w where w: "snd x = w @ snd z" "w \<in> L" by blast
    have "snd x = concat (w # ws) @ snd y \<and> set (w # ws) \<subseteq> L \<and> min lo (Suc n) \<le> length (w # ws)"
      using ws w by auto
    then show ?thesis by blast
  qed
qed

lemma rmatch_lang:
  "y \<in> set (rmatch ci r x) \<Longrightarrow> \<exists>w. snd x = w @ snd y \<and> w \<in> lang ci r"
proof (induction r arbitrary: x y)
  case (Cls cs)
  then show ?case by (cases x) (auto split: list.splits if_splits)
next
  case (Seq r1 r2)
  then obtain z where z: "z \<in> set (rmatch ci r1 x)" "y \<in> set (rmatch ci r2 z)"
    by auto
  from Seq.IH(1) [OF z(1)] obtain u where u: "snd x = u @ snd z" "u \<in> lang ci r1" by blast
  from Seq.IH(2) [OF z(2)] obtain v where v: "snd z = v @ snd y" "v \<in> lang ci r2" by blast
  have "snd x = (u @ v) @ snd y" using u v by simp
  moreover have "u @ v \<in> lang ci (Seq r1 r2)" using u v by auto
  ultimately show ?case by blast
next
  case (Alt r1 r2)
  from Alt.prems have "y \<in> set (rmatch ci r1 x) \<or> y \<in> set (rmatch ci r2 x)"
    by simp
  then show ?case using Alt.IH by fastforce
next
  case (Rep r lo hi)
  define n where "n = (case hi of Some h \<Rightarrow> h | None \<Rightarrow> lo + length (snd x))"
  from Rep.prems have "y \<in> set (rep (rmatch ci r) lo n x)" by (simp add: n_def)
  from rep_lang [of "rmatch ci r" "lang ci r", OF Rep.IH this]
  obtain ws where ws: "snd x = concat ws @ snd y" "set ws \<subseteq> lang ci r" "min lo n \<le> length ws"
    by blast
  have "(case hi of None \<Rightarrow> lo | Some h \<Rightarrow> min lo h) \<le> length ws"
    using ws(3) by (cases hi) (auto simp: n_def)
  with ws have "concat ws \<in> lang ci (Rep r lo hi)" by auto
  with ws(1) show ?case by blast
next
  case WordB
  then show ?case by (auto simp: Let_def split: if_splits)
next
  case Eps
  then show ?case by simp
qed

lemma regex_exec_sound:
  "regex_exec ci r p s = Some (m, y) \<Longrightarrow> (\<exists>u. s = u @ m @ snd y) \<and> m \<in> lang ci r"
proof (induction s arbitrary: p)
  case Nil
  then obtain zs where z: "rmatch ci r (p, []) = y # zs" and m: "m = []"
    by (auto split: list.splits)
  then have "y \<in> set (rmatch ci r (p, []))" by simp
  from rmatch_lang [OF this] m show ?case by simp
next
  case (Cons c s)
  show ?case
  proof (cases "rmatch ci r (p, c # s)")
    case Nil
    with Cons.prems have "regex_exec ci r (Some c) s = Some (m, y)" by simp
    from Cons.IH [OF this] obtain u where "s = u @ m @ snd y" and l: "m \<in> lang ci r" by blast
    then have "c # s = (c # u) @ m @ snd y" by simp
    with l show ?thesis by blast
  next
    case (Cons z zs)
    with Cons.prems have y: "y = z" and m: "m = take (length (c # s) - length (snd y)) (c # s)"
      by auto
    from Cons y have "y \<in> set (rmatch ci r (p, c # s))" by simp
    from rmatch_lang [OF this] obtain w where w: "c # s = w @ snd y" "w \<in> lang ci r"
      by auto
    have "length (c # s) - length (snd y) = length w"
      by (subst w(1)) simp
    with m have "m = take (length w) (w @ snd y)" using w(1) by simp
    then have "m = w" by simp
    with w have "c # s = [] @ m @ snd y" by simp
    with \<open>m = w\<close> w(2) show ?thesis by blast
  qed
qed

declare match_global.simps [simp del]

lemma match_global_step:
  "regex_exec ci r p s = Some (m, y) \<Longrightarrow>
     match_global ci r p s =
       m # (if m = [] then (case snd y of [] \<Rightarrow> [] | c # s' \<Rightarrow> match_global ci r (Some c) s')
            else match_global ci r (fst y) (snd y))"
  by (subst match_global.simps) simp

lemma match_global_none: "regex_exec ci r p s = None \<Longrightarrow> match_global ci r p s = []"
  by (subst match_global.simps) simp

lemma match_global_sound:
  "m \<in> set (match_global ci r p s) \<Longrightarrow> sublist m s \<and> m \<in> lang ci r"
proof (induction ci r p s rule: match_global.induct)
  case (1 ci r p s)
  show ?case
  proof (cases "regex_exec ci r p s")
    case None
    with "1.prems" show ?thesis by (simp add: match_global_none)
  next
    case (Some my)
    obtain m' y where my: "my = (m', y)" by (cases my)
    note ex = Some [unfolded my]
    from regex_exec_sound [OF ex] obtain u where
      u: "s = u @ m' @ snd y" and l: "m' \<in> lang ci r" by blast
    have suf: "sublist (snd y) s"
      unfolding sublist_def using u by (metis append.assoc append_Nil2)
    have here: "sublist m' s" unfolding sublist_def using u by blast
    from "1.prems" have mem: "m = m' \<or>
        m \<in> set (if m' = [] then (case snd y of [] \<Rightarrow> [] | c # s' \<Rightarrow> match_global ci r (Some c) s')
                 else match_global ci r (fst y) (snd y))"
      by (simp add: match_global_step [OF ex])
    show ?thesis
    proof (cases "m = m'")
      case True
      with here l show ?thesis by simp
    next
      case False
      show ?thesis
      proof (cases "m' = []")
        case True
        with mem False obtain c s' where
          s': "snd y = c # s'" and mem': "m \<in> set (match_global ci r (Some c) s')"
          by (cases "snd y") auto
        from "1.IH"(1) [OF Some my [symmetric] True s' mem']
        have "sublist m s'" and ml: "m \<in> lang ci r" by simp_all
        then have "sublist m (snd y)" using s' by (simp add: sublist_Cons_right)
        with suf ml show ?thesis by (meson sublist_order.order.trans)
      next
        case F: False
        with mem False have mem': "m \<in> set (match_global ci r (fst y) (snd y))"
          by simp
        from "1.IH"(2) [OF Some my [symmetric] F mem']
        have "sublist m (snd y)" and ml: "m \<in> lang ci r" by simp_all
        with suf show ?thesis by (meson sublist_order.order.trans)
      qed
    qed
  qed
qed

lemma indexOf_from_cases:
  "(indexOf_from k s n = - 1 \<and> \<not> sublist n s) \<or>
   (\<exists>i. indexOf_from k s n = int (k + i) \<and> prefix n (drop i s) \<and> (\<forall>j<i. \<not> prefix n (drop j s)))"
proof (induction s arbitrary: k)
  case Nil
  show ?case
  proof (cases "n = []")
    case True
    then have "indexOf_from k [] n = int (k + 0) \<and> prefix n (drop 0 []) \<and> (\<forall>j<0::nat. \<not> prefix n (drop j []))"
      by simp
    then show ?thesis by blast
  next
    case False
    then show ?thesis by simp
  qed
next
  case (Cons c s)
  show ?case
  proof (cases "prefix n (c # s)")
    case True
    then have "indexOf_from k (c # s) n = int (k + 0) \<and> prefix n (drop 0 (c # s)) \<and> (\<forall>j<0::nat. \<not> prefix n (drop j (c # s)))"
      by simp
    then show ?thesis by blast
  next
    case False
    then have eq: "indexOf_from k (c # s) n = indexOf_from (Suc k) s n" by simp
    from Cons.IH [of "Suc k"] show ?thesis
    proof
      assume "indexOf_from (Suc k) s n = - 1 \<and> \<not> sublist n s"
      with False eq show ?thesis by (simp add: sublist_Cons_right)
    next
      assume "\<exists>i. indexOf_from (Suc k) s n = int (Suc k + i) \<and> prefix n (drop i s) \<and> (\<forall>j<i. \<not> prefix n (drop j s))"
      then obtain i where i: "indexOf_from (Suc k) s n = int (Suc k + i)" "prefix n (drop i s)"
        "\<forall>j<i. \<not> prefix n (drop j s)" by blast
      have "\<forall>j<Suc i. \<not> prefix n (drop j (c # s))"
      proof (intro allI impI)
        fix j assume "j < Suc i"
        then show "\<not> prefix n (drop j (c # s))"
          using False i(3) by (cases j) auto
      qed
      with i eq have "indexOf_from k (c # s) n = int (k + Suc i) \<and> prefix n (drop (Suc i) (c # s)) \<and> (\<forall>j<Suc i. \<not> prefix n (drop j (c # s)))"
        by simp
      then show ?thesis by blast
    qed
  qed
qed

lemma prefix_drop_sublist: "prefix n (drop i s) \<Longrightarrow> sublist n s"
  by (metis append_take_drop_id prefix_def sublist_def)

lemma indexOf_found:
  assumes "sublist n s"
  shows "0 \<le> indexOf s n \<and> take (length n) (drop (nat (indexOf s n)) s) = n"
proof -
  from indexOf_from_cases [of 0 s n] assms obtain i where
    i: "indexOf s n = int i" "prefix n (drop i s)"
    by (auto simp: indexOf_def)
  from i(2) have "take (length n) (drop i s) = n"
    by (auto simp: prefix_def)
  with i(1) show ?thesis by simp
qed

lemma indexOf_missing: "\<not> sublist n s \<Longrightarrow> indexOf s n = - 1"
  using indexOf_from_cases [of 0 s n] by (auto simp: indexOf_def dest: prefix_drop_sublist)

lemma indexOf_first:
  "0 \<le> indexOf s n \<Longrightarrow> j < nat (indexOf s n) \<Longrightarrow> \<not> prefix n (drop j s)"
  using indexOf_from_cases [of 0 s n] by (auto simp: indexOf_def)

section \<open>Completeness of the global match\<close>

text \<open>
  The matcher keeps track of the code unit before the current position, an \<^verbatim>\<open>exec\<close> returns
  the first position at which the expression matches, and so the global match reports, for
  every position at which the expression matches, a match that starts there or one that starts
  before it and reaches beyond it.
\<close>

lemma prev_after_Nil: "prev_after p [] = p"
  by (simp add: prev_after_def)

lemma prev_after_append: "prev_after (prev_after p u) v = prev_after p (u @ v)"
  by (simp add: prev_after_def)

lemma prev_after_Cons: "prev_after p (c # u) = prev_after (Some c) u"
  by (simp add: prev_after_def)

lemma rep_track:
  assumes m: "\<And>x y. y \<in> set (m x) \<Longrightarrow> \<exists>w. snd x = w @ snd y \<and> fst y = prev_after (fst x) w"
  shows "y \<in> set (rep m lo n x) \<Longrightarrow> \<exists>w. snd x = w @ snd y \<and> fst y = prev_after (fst x) w"
proof (induction n arbitrary: lo x)
  case 0
  then have "snd x = [] @ snd y \<and> fst y = prev_after (fst x) []"
    by (simp add: prev_after_Nil)
  then show ?case by blast
next
  case (Suc n)
  from Suc.prems consider "y = x"
    | z where "z \<in> set (m x)" "y \<in> set (rep m (lo - 1) n z)"
    by (auto split: if_splits)
  then show ?case
  proof cases
    case 1
    then have "snd x = [] @ snd y \<and> fst y = prev_after (fst x) []"
      by (simp add: prev_after_Nil)
    then show ?thesis by blast
  next
    case 2
    from Suc.IH [OF 2(2)] obtain v where v: "snd z = v @ snd y" "fst y = prev_after (fst z) v"
      by blast
    from m [OF 2(1)] obtain u where u: "snd x = u @ snd z" "fst z = prev_after (fst x) u"
      by blast
    have "snd x = (u @ v) @ snd y \<and> fst y = prev_after (fst x) (u @ v)"
      using u v by (simp add: prev_after_append)
    then show ?thesis by blast
  qed
qed

lemma rmatch_track:
  "y \<in> set (rmatch ci r x) \<Longrightarrow> \<exists>w. snd x = w @ snd y \<and> fst y = prev_after (fst x) w"
proof (induction r arbitrary: x y)
  case (Cls cs)
  then obtain c where "snd x = c # snd y" "fst y = Some c"
    by (cases x) (auto split: list.splits if_splits)
  then have "snd x = [c] @ snd y \<and> fst y = prev_after (fst x) [c]"
    by (simp add: prev_after_def)
  then show ?case by blast
next
  case (Seq r1 r2)
  then obtain z where z: "z \<in> set (rmatch ci r1 x)" "y \<in> set (rmatch ci r2 z)"
    by auto
  from Seq.IH(1) [OF z(1)] obtain u where u: "snd x = u @ snd z" "fst z = prev_after (fst x) u"
    by blast
  from Seq.IH(2) [OF z(2)] obtain v where v: "snd z = v @ snd y" "fst y = prev_after (fst z) v"
    by blast
  have "snd x = (u @ v) @ snd y \<and> fst y = prev_after (fst x) (u @ v)"
    using u v by (simp add: prev_after_append)
  then show ?case by blast
next
  case (Alt r1 r2)
  from Alt.prems have "y \<in> set (rmatch ci r1 x) \<or> y \<in> set (rmatch ci r2 x)"
    by simp
  then show ?case using Alt.IH by blast
next
  case (Rep r lo hi)
  from Rep.prems show ?case
    by (auto intro: rep_track [of "rmatch ci r"] Rep.IH)
next
  case WordB
  then have "y = x" by (auto simp: Let_def split: if_splits)
  then have "snd x = [] @ snd y \<and> fst y = prev_after (fst x) []"
    by (simp add: prev_after_Nil)
  then show ?case by blast
next
  case Eps
  then have "snd x = [] @ snd y \<and> fst y = prev_after (fst x) []"
    by (simp add: prev_after_Nil)
  then show ?case by blast
qed

lemma regex_exec_none:
  "regex_exec ci r p s = None \<Longrightarrow> s = a1 @ a2 \<Longrightarrow> rmatch ci r (prev_after p a1, a2) = []"
proof (induction s arbitrary: p a1)
  case Nil
  then show ?case by (auto simp: prev_after_Nil split: list.splits)
next
  case (Cons c s)
  from Cons.prems(1) have e: "rmatch ci r (p, c # s) = []" and n: "regex_exec ci r (Some c) s = None"
    by (auto split: list.splits)
  show ?case
  proof (cases a1)
    case Nil
    with Cons.prems(2) e show ?thesis by (simp add: prev_after_Nil)
  next
    case (Cons d a1')
    with Cons.prems(2) have "d = c" "s = a1' @ a2" by simp_all
    from Cons.IH [OF n this(2)] show ?thesis
      using Cons \<open>d = c\<close> by (simp add: prev_after_Cons)
  qed
qed

lemma regex_exec_first:
  "regex_exec ci r p s = Some (m, y) \<Longrightarrow>
     \<exists>a ys. s = a @ m @ snd y \<and> rmatch ci r (prev_after p a, m @ snd y) = y # ys \<and>
            fst y = prev_after p (a @ m) \<and>
            (\<forall>a1 a2. a = a1 @ a2 \<longrightarrow> a2 \<noteq> [] \<longrightarrow>
               rmatch ci r (prev_after p a1, a2 @ m @ snd y) = [])"
proof (induction s arbitrary: p)
  case Nil
  then obtain zs where z: "rmatch ci r (p, []) = y # zs" and m: "m = []"
    by (auto split: list.splits)
  then have "y \<in> set (rmatch ci r (p, []))" by simp
  from rmatch_track [OF this] have y: "snd y = []" "fst y = p"
    by (auto simp: prev_after_Nil)
  have "[] = [] @ m @ snd y \<and> rmatch ci r (prev_after p [], m @ snd y) = y # zs \<and>
        fst y = prev_after p ([] @ m) \<and>
        (\<forall>a1 a2. [] = a1 @ a2 \<longrightarrow> a2 \<noteq> [] \<longrightarrow>
               rmatch ci r (prev_after p a1, a2 @ m @ snd y) = [])"
    using z m y by (simp add: prev_after_Nil)
  then show ?case by blast
next
  case (Cons c s)
  show ?case
  proof (cases "rmatch ci r (p, c # s)")
    case Nil
    with Cons.prems have "regex_exec ci r (Some c) s = Some (m, y)" by simp
    from Cons.IH [OF this] obtain a ys where
      a: "s = a @ m @ snd y" "rmatch ci r (prev_after (Some c) a, m @ snd y) = y # ys"
         "fst y = prev_after (Some c) (a @ m)"
         "\<forall>a1 a2. a = a1 @ a2 \<longrightarrow> a2 \<noteq> [] \<longrightarrow>
               rmatch ci r (prev_after (Some c) a1, a2 @ m @ snd y) = []"
      by blast
    have early: "rmatch ci r (prev_after p a1, a2 @ m @ snd y) = []"
      if "c # a = a1 @ a2" "a2 \<noteq> []" for a1 a2
    proof (cases a1)
      case Nil
      with that have "a2 = c # a" by simp
      with Nil \<open>rmatch ci r (p, c # s) = []\<close> a(1) show ?thesis
        by (simp add: prev_after_Nil)
    next
      case (Cons d a1')
      with that have "d = c" "a = a1' @ a2" by simp_all
      with a(4) that(2) Cons show ?thesis by (simp add: prev_after_Cons)
    qed
    have "c # s = (c # a) @ m @ snd y \<and>
          rmatch ci r (prev_after p (c # a), m @ snd y) = y # ys \<and>
          fst y = prev_after p ((c # a) @ m) \<and>
          (\<forall>a1 a2. c # a = a1 @ a2 \<longrightarrow> a2 \<noteq> [] \<longrightarrow>
               rmatch ci r (prev_after p a1, a2 @ m @ snd y) = [])"
      using a(1-3) early by (simp add: prev_after_Cons)
    then show ?thesis by blast
  next
    case (Cons z zs)
    with Cons.prems have y: "y = z" and m: "m = take (length (c # s) - length (snd y)) (c # s)"
      by auto
    from Cons y have "y \<in> set (rmatch ci r (p, c # s))" by simp
    from rmatch_track [OF this] obtain w where
      w: "c # s = w @ snd y" "fst y = prev_after p w" by auto
    have "length (c # s) - length (snd y) = length w"
      by (subst w(1)) simp
    with m have "m = take (length w) (w @ snd y)" using w(1) by simp
    then have mw: "m = w" by simp
    have "c # s = [] @ m @ snd y \<and>
          rmatch ci r (prev_after p [], m @ snd y) = y # zs \<and>
          fst y = prev_after p ([] @ m) \<and>
          (\<forall>a1 a2. [] = a1 @ a2 \<longrightarrow> a2 \<noteq> [] \<longrightarrow>
               rmatch ci r (prev_after p a1, a2 @ m @ snd y) = [])"
      using w mw Cons y by (simp add: prev_after_Nil)
    then show ?thesis by blast
  qed
qed

lemma match_global_covers:
  "[] \<notin> lang ci r \<Longrightarrow> s = u @ t \<Longrightarrow> rmatch ci r (prev_after p u, t) \<noteq> [] \<Longrightarrow>
     \<exists>a m b. s = a @ m @ b \<and> m \<in> set (match_global ci r p s) \<and>
             length a \<le> length u \<and> length u < length a + length m \<and>
             (length a = length u \<longrightarrow>
                (\<exists>ys. rmatch ci r (prev_after p u, t) = (prev_after p (u @ m), b) # ys))"
proof (induction ci r p s arbitrary: u t rule: match_global.induct)
  case (1 ci r p s)
  note ne = "1.prems"(1) and s = "1.prems"(2) and hit = "1.prems"(3)
  have "regex_exec ci r p s \<noteq> None"
    using regex_exec_none [of ci r p s u t] s hit by blast
  then obtain my where Some: "regex_exec ci r p s = Some my" by blast
  obtain m y where my: "my = (m, y)" by (cases my)
  note ex = Some [unfolded my]
  from regex_exec_first [OF ex] obtain a ys where
    a: "s = a @ m @ snd y" "rmatch ci r (prev_after p a, m @ snd y) = y # ys"
       "fst y = prev_after p (a @ m)"
       "\<forall>a1 a2. a = a1 @ a2 \<longrightarrow> a2 \<noteq> [] \<longrightarrow>
               rmatch ci r (prev_after p a1, a2 @ m @ snd y) = []"
    by blast
  from regex_exec_sound [OF ex] ne have mne: "m \<noteq> []" by auto
  have la: "length a \<le> length u"
  proof (rule ccontr)
    assume "\<not> length a \<le> length u"
    then have lt: "length u < length a" by simp
    from s a(1) have "u @ t = a @ m @ snd y" by simp
    then obtain a2 where a2: "a = u @ a2" "t = a2 @ m @ snd y"
      using lt by (auto simp: append_eq_append_conv2)
    with lt have "a2 \<noteq> []" by auto
    with a(4) a2 have "rmatch ci r (prev_after p u, t) = []" by blast
    with hit show False by simp
  qed
  have step: "match_global ci r p s = m # match_global ci r (fst y) (snd y)"
    using match_global_step [OF ex] mne by simp
  show ?case
  proof (cases "length u < length a + length m")
    case True
    have "length a = length u \<longrightarrow>
            (\<exists>ys. rmatch ci r (prev_after p u, t) = (prev_after p (u @ m), snd y) # ys)"
    proof
      assume "length a = length u"
      with s a(1) have "a = u" "t = m @ snd y" by auto
      with a(2,3) have "rmatch ci r (prev_after p u, t) = (prev_after p (u @ m), snd y) # ys"
        by (cases y) simp
      then show "\<exists>ys. rmatch ci r (prev_after p u, t) = (prev_after p (u @ m), snd y) # ys"
        by blast
    qed
    with a(1) la True step show ?thesis by auto
  next
    case False
    then have ge: "length a + length m \<le> length u" by simp
    from s a(1) have "u @ t = (a @ m) @ snd y" by simp
    then obtain u' where u': "u = a @ m @ u'" "snd y = u' @ t"
      using ge by (auto simp: append_eq_append_conv2)
    have hit': "rmatch ci r (prev_after (fst y) u', t) \<noteq> []"
      using hit a(3) u'(1) by (simp add: prev_after_append)
    from "1.IH"(2) [OF Some my [symmetric] mne ne u'(2) hit'] obtain a' m' b' where
      r: "snd y = a' @ m' @ b'" "m' \<in> set (match_global ci r (fst y) (snd y))"
         "length a' \<le> length u'" "length u' < length a' + length m'"
         "length a' = length u' \<longrightarrow>
            (\<exists>ys. rmatch ci r (prev_after (fst y) u', t) = (prev_after (fst y) (u' @ m'), b') # ys)"
      by blast
    have pa: "prev_after (fst y) u' = prev_after p u"
      "prev_after (fst y) (u' @ m') = prev_after p (u @ m')"
      using a(3) u'(1) by (simp_all add: prev_after_append)
    have "s = (a @ m @ a') @ m' @ b'" using a(1) r(1) by simp
    moreover have "m' \<in> set (match_global ci r p s)" using step r(2) by simp
    moreover have "length (a @ m @ a') \<le> length u" using r(3) u'(1) by simp
    moreover have "length u < length (a @ m @ a') + length m'" using r(4) u'(1) by simp
    moreover have "length (a @ m @ a') = length u \<longrightarrow>
        (\<exists>ys. rmatch ci r (prev_after p u, t) = (prev_after p (u @ m'), b') # ys)"
      using r(5) u'(1) pa by simp
    ultimately show ?thesis by blast
  qed
qed

section \<open>The analysis of a text, step by step\<close>

lemma detectAndAdd_JString:
  "detectAndAdd (JString s) pattern type rl a =
     Inr (a\<lparr>detectedIssues := detectedIssues a @ found pattern type rl s\<rparr>)"
  by (simp add: detectAndAdd_def string_match_def found_def split: list.splits)

lemma detectCompanyNames_JString:
  "detectCompanyNames (JString s) a =
     Inr (a\<lparr>detectedIssues := detectedIssues a @ found companyPattern ''companyName'' ''MEDIUM'' s\<rparr>)"
  by (simp add: detectCompanyNames_def string_match_def found_def split: list.splits)

lemma detectLocationContext_JString:
  "detectLocationContext (JString s) a =
     Inr (a\<lparr>detectedIssues := detectedIssues a @ found locationPattern ''locationContext'' ''MEDIUM'' s\<rparr>)"
  by (simp add: detectLocationContext_def string_match_def found_def split: list.splits)

lemma detectPatternBasedIssues_JString:
  "detectPatternBasedIssues (JString s) a =
     Inr (a\<lparr>detectedIssues := detectedIssues a @ pattern_issues s\<rparr>)"
  by (simp add: detectPatternBasedIssues_def detectAndAdd_JString detectCompanyNames_JString
        detectLocationContext_JString pattern_issues_def)

lemma detectPatternBasedIssues_other:
  "\<forall>s. content \<noteq> JString s \<Longrightarrow> detectPatternBasedIssues content a = Inl (TypeError, a)"
  by (cases content) (simp_all add: detectPatternBasedIssues_def detectAndAdd_def)

lemma analyzeContent_try_JString:
  "analyzeContent_try reply (JString s) =
     Inr \<lparr>originalContent = JString s,
          filteredContent = JString (fst (fold redact (sortedIssues (all_issues reply s)) (s, []))),
          detectedIssues = all_issues reply s,
          riskLevel = calculateRiskLevel (all_issues reply s),
          suggestions = new_Set (concat (map type_advice (new_Set (map issue_type (all_issues reply s))))
                                 @ risk_warnings (calculateRiskLevel (all_issues reply s))),
          anonymizationMap = snd (fold redact (sortedIssues (all_issues reply s)) (s, [])),
          error = None\<rparr>"
  by (cases reply)
     (simp_all add: analyzeContent_try_def detectPatternBasedIssues_JString initial_analysis_def
        detectAIBasedIssues_def addAIDetectedIssues_def applyFilters_step_def applyFilters_def
        generateSuggestions_def all_issues_def ai_found_def Let_def)

lemma analyzeContent_try_other:
  "\<forall>s. content \<noteq> JString s \<Longrightarrow>
     analyzeContent_try reply content = Inl (TypeError, initial_analysis content)"
  by (simp add: analyzeContent_try_def detectPatternBasedIssues_other)

lemma analyzeContent_JString:
  "analyzeContent reply (JString s) =
     \<lparr>originalContent = JString s,
      filteredContent = JString (fst (fold redact (sortedIssues (all_issues reply s)) (s, []))),
      detectedIssues = all_issues reply s,
      riskLevel = calculateRiskLevel (all_issues reply s),
      suggestions = new_Set (concat (map type_advice (new_Set (map issue_type (all_issues reply s))))
                             @ risk_warnings (calculateRiskLevel (all_issues reply s))),
      anonymizationMap = snd (fold redact (sortedIssues (all_issues reply s)) (s, [])),
      error = None\<rparr>"
  by (simp add: analyzeContent_def analyzeContent_try_JString)

lemma analyzeContent_other:
  "\<forall>s. content \<noteq> JString s \<Longrightarrow>
     analyzeContent reply content =
       (initial_analysis content)\<lparr>error := Some ''Privacy analysis failed'', riskLevel := riskLevels_HIGH\<rparr>"
  by (simp add: analyzeContent_def analyzeContent_try_other)

lemma found_props:
  "f \<in> set (found pattern type rl s) \<Longrightarrow>
     issue_type f = type \<and> issue_riskLevel f = rl \<and> detectionMethod f = ''pattern'' \<and>
     issue_position f = indexOf s (issue_value f) \<and> sublist (issue_value f) s \<and>
     issue_value f \<in> lang (snd pattern) (fst pattern)"
  by (auto simp: found_def dest: match_global_sound)

lemma ai_issues_props:
  "f \<in> set (ai_issues s type rl field) \<Longrightarrow>
     issue_type f = type \<and> issue_riskLevel f = rl \<and> detectionMethod f = ''ai'' \<and>
     issue_position f = indexOf s (issue_value f)"
  by (auto simp: ai_issues_def split: option.splits)

section \<open>Offsets of findings\<close>

text \<open>
  Claim C1, as amended. Every finding of the analysis of a text, pattern-based or added from
  the reply of the external model, has as its position the result of \<^verbatim>\<open>indexOf\<close> on the
  original text and its value, before which the value does not occur. If the value occurs in
  the text, the value stands in the text at that position; if it does not, the position is
  \<open>-1\<close>. The value of a pattern-based finding
  always occurs in the text, so for these the invariant holds without condition.
\<close>

theorem finding_offset:
  assumes "f \<in> set (detectedIssues (analyzeContent reply (JString s)))"
  shows "issue_position f = indexOf s (issue_value f) \<and>
         (\<forall>j. int j < issue_position f \<longrightarrow> \<not> prefix (issue_value f) (drop j s)) \<and>
         (if sublist (issue_value f) s then offset_invariant s f else issue_position f = - 1) \<and>
         (detectionMethod f = ''pattern'' \<longrightarrow> offset_invariant s f)"
proof -
  from assms have "f \<in> set (pattern_issues s) \<or> f \<in> set (ai_found reply s)"
    by (simp add: analyzeContent_JString all_issues_def)
  then have pos: "issue_position f = indexOf s (issue_value f)"
    and pat: "detectionMethod f = ''pattern'' \<longrightarrow> sublist (issue_value f) s"
    by (auto simp: pattern_issues_def ai_found_def split: option.splits
             dest: found_props ai_issues_props)
  have inv: "offset_invariant s f" if "sublist (issue_value f) s"
    using indexOf_found [OF that] pos by (simp add: offset_invariant_def)
  have miss: "issue_position f = - 1" if "\<not> sublist (issue_value f) s"
    using indexOf_missing [OF that] pos by simp
  have first: "\<not> prefix (issue_value f) (drop j s)" if "int j < issue_position f" for j
    using indexOf_first [of s "issue_value f" j] that pos by simp
  from pos pat inv miss first show ?thesis by auto
qed

text \<open>
  A pattern-based finding of the text \<^verbatim>\<open>pay $5\<close>, and a finding of the external model
  whose value is in the text.
\<close>

theorem finding_offset_witness:
  "offset_invariant ''pay $5''
     \<lparr>issue_type = ''currency'', issue_value = ''$5'', issue_riskLevel = ''MEDIUM'',
      issue_position = 4, detectionMethod = ''pattern''\<rparr> \<and>
   indexOf ''pay $5'' ''$5'' = 4 \<and>
   offset_invariant ''hello Ann''
     \<lparr>issue_type = ''personalName'', issue_value = ''Ann'', issue_riskLevel = ''HIGH'',
      issue_position = 6, detectionMethod = ''ai''\<rparr> \<and>
   indexOf ''hello Ann'' ''Ann'' = 6"
proof -
  have a: "\<lparr>issue_type = ''currency'', issue_value = ''$5'', issue_riskLevel = ''MEDIUM'',
            issue_position = 4, detectionMethod = ''pattern''\<rparr>
           \<in> set (detectedIssues (analyzeContent None (JString ''pay $5'')))"
    by code_simp
  have b: "\<lparr>issue_type = ''personalName'', issue_value = ''Ann'', issue_riskLevel = ''HIGH'',
            issue_position = 6, detectionMethod = ''ai''\<rparr>
           \<in> set (detectedIssues
                   (analyzeContent
                      (Some \<lparr>personalNames = Some [''Bob'', ''Ann''], companyNames = None,
                             financialInfo = None, locations = None, confidentialInfo = None\<rparr>)
                      (JString ''hello Ann'')))"
    by code_simp
  have c: "sublist ''Ann'' ''hello Ann''" by code_simp
  from finding_offset [OF a] finding_offset [OF b] c show ?thesis by simp
qed

text \<open>
  The position is that of the first occurrence of the value, not that of the match: in
  \<^verbatim>\<open>xjoe@a.com joe@a.com\<close> the second address is matched at 11 and reported at 1.
\<close>

lemma literal_offset_example:
  "map issue_position (detectedIssues (analyzeContent None (JString ''xjoe@a.com joe@a.com''))) =
     [0, 1]"
  by code_simp

text \<open>
  Claim C1 as stated fails for a finding of the external model whose value is not in the
  text: its position is \<open>-1\<close>, which is not an index into the text.
\<close>

theorem ai_finding_offset_counterexample:
  "detectedIssues
     (analyzeContent
        (Some \<lparr>personalNames = Some [''Bob''], companyNames = None, financialInfo = None,
               locations = None, confidentialInfo = None\<rparr>)
        (JString ''hello''))
   = [\<lparr>issue_type = ''personalName'', issue_value = ''Bob'', issue_riskLevel = ''HIGH'',
       issue_position = - 1, detectionMethod = ''ai''\<rparr>]
   \<and> \<not> offset_invariant ''hello''
        \<lparr>issue_type = ''personalName'', issue_value = ''Bob'', issue_riskLevel = ''HIGH'',
         issue_position = - 1, detectionMethod = ''ai''\<rparr>"
  by code_simp

section \<open>Risk aggregation\<close>

lemma filter_length_pos: "0 < length (filter P xs) \<longleftrightarrow> (\<exists>x\<in>set xs. P x)"
  by (auto simp: filter_empty_conv)

text \<open>
  Claim C3. The risk level of a list of findings is high if some finding has severity
  \<^verbatim>\<open>HIGH\<close>; otherwise high if more than one finding has severity \<^verbatim>\<open>MEDIUM\<close>; otherwise
  medium if exactly one finding has severity \<^verbatim>\<open>MEDIUM\<close>; otherwise low.
\<close>

theorem calculateRiskLevel_cases:
  "calculateRiskLevel fs =
     (if \<exists>f\<in>set fs. issue_riskLevel f = ''HIGH'' then riskLevels_HIGH
      else if 1 < length (filter (\<lambda>f. issue_riskLevel f = ''MEDIUM'') fs) then riskLevels_HIGH
      else if length (filter (\<lambda>f. issue_riskLevel f = ''MEDIUM'') fs) = 1 then riskLevels_MEDIUM
      else riskLevels_LOW)"
proof -
  define h where "h = length (filter (\<lambda>f. issue_riskLevel f = ''HIGH'') fs)"
  define n where "n = length (filter (\<lambda>f. issue_riskLevel f = ''MEDIUM'') fs)"
  have any: "(\<exists>f\<in>set fs. issue_riskLevel f = ''HIGH'') \<longleftrightarrow> 0 < h"
    unfolding h_def by (rule filter_length_pos [symmetric])
  have "calculateRiskLevel fs =
          (if 0 < h then riskLevels_HIGH else if 1 < n then riskLevels_HIGH
           else if 0 < n then riskLevels_MEDIUM else riskLevels_LOW)"
    by (simp add: calculateRiskLevel_def h_def n_def)
  also have "\<dots> = (if 0 < h then riskLevels_HIGH else if 1 < n then riskLevels_HIGH
           else if n = 1 then riskLevels_MEDIUM else riskLevels_LOW)"
    by auto
  finally show ?thesis unfolding any n_def .
qed

text \<open>One medium finding, two medium findings, and no finding.\<close>

theorem calculateRiskLevel_cases_witness:
  "calculateRiskLevel
     [\<lparr>issue_type = ''currency'', issue_value = ''$5'', issue_riskLevel = ''MEDIUM'',
       issue_position = 0, detectionMethod = ''pattern''\<rparr>] = ''medium'' \<and>
   calculateRiskLevel
     [\<lparr>issue_type = ''currency'', issue_value = ''$5'', issue_riskLevel = ''MEDIUM'',
       issue_position = 0, detectionMethod = ''pattern''\<rparr>,
      \<lparr>issue_type = ''zipCode'', issue_value = ''12345'', issue_riskLevel = ''MEDIUM'',
       issue_position = 3, detectionMethod = ''pattern''\<rparr>] = ''high'' \<and>
   calculateRiskLevel [] = ''low''"
  using calculateRiskLevel_cases
          [of "[\<lparr>issue_type = ''currency'', issue_value = ''$5'', issue_riskLevel = ''MEDIUM'',
                  issue_position = 0, detectionMethod = ''pattern''\<rparr>]"]
        calculateRiskLevel_cases
          [of "[\<lparr>issue_type = ''currency'', issue_value = ''$5'', issue_riskLevel = ''MEDIUM'',
                  issue_position = 0, detectionMethod = ''pattern''\<rparr>,
                \<lparr>issue_type = ''zipCode'', issue_value = ''12345'', issue_riskLevel = ''MEDIUM'',
                  issue_position = 3, detectionMethod = ''pattern''\<rparr>]"]
        calculateRiskLevel_cases [of "[]"]
  by (simp add: riskLevels_HIGH_def riskLevels_MEDIUM_def riskLevels_LOW_def)

section \<open>Failure of the analysis\<close>

text \<open>
  Claim C5. \<^verbatim>\<open>analyzeContent\<close> always returns an analysis. If a step of its \<^verbatim>\<open>try\<close> block
  throws, the result is the analysis as it was at that point, with the risk level high and
  the error marker set.
\<close>

theorem analyzeContent_fail_closed:
  assumes "analyzeContent_try reply content = Inl (e, a)"
  shows "analyzeContent reply content =
           a\<lparr>error := Some ''Privacy analysis failed'', riskLevel := riskLevels_HIGH\<rparr> \<and>
         riskLevel (analyzeContent reply content) = ''high'' \<and>
         error (analyzeContent reply content) = Some ''Privacy analysis failed''"
  using assms by (simp add: analyzeContent_def riskLevels_HIGH_def)

text \<open>The content \<^verbatim>\<open>undefined\<close>: the first \<^verbatim>\<open>match\<close> throws.\<close>

theorem analyzeContent_fail_closed_witness:
  "analyzeContent_try None JUndefined = Inl (TypeError, initial_analysis JUndefined) \<and>
   riskLevel (analyzeContent None JUndefined) = ''high'' \<and>
   error (analyzeContent None JUndefined) = Some ''Privacy analysis failed''"
proof -
  have f: "analyzeContent_try None JUndefined = Inl (TypeError, initial_analysis JUndefined)"
    by (simp add: analyzeContent_try_other)
  from analyzeContent_fail_closed [OF f] f show ?thesis by (simp add: riskLevels_HIGH_def)
qed

text \<open>
  The degraded result has no findings and a high risk level: a failed analysis is not
  taken for a safe content.
\<close>

lemma degraded_result_example:
  "detectedIssues (analyzeContent reply (JNumber 42)) = [] \<and>
   riskLevel (analyzeContent reply (JNumber 42)) = ''high'' \<and>
   \<not> isContentSafe reply (JNumber 42)"
  by (simp add: analyzeContent_other initial_analysis_def isContentSafe_def
        riskLevels_HIGH_def riskLevels_LOW_def)

text \<open>The analysis fails exactly on a content that is not a string.\<close>

lemma analyzeContent_try_fails_iff:
  "(\<exists>e a. analyzeContent_try reply content = Inl (e, a)) \<longleftrightarrow> (\<forall>s. content \<noteq> JString s)"
proof (cases "\<exists>s. content = JString s")
  case True
  then show ?thesis by (auto simp: analyzeContent_try_JString)
next
  case False
  then show ?thesis by (simp add: analyzeContent_try_other)
qed

section \<open>The gated entry point\<close>

text \<open>
  Claim C6. \<^verbatim>\<open>filterContent\<close> filters exactly when the option \<^verbatim>\<open>enablePrivacyFilter\<close> is
  true (which it is by default) and the environment flag is \<^verbatim>\<open>true\<close> or the option
  \<^verbatim>\<open>forcePrivacyFilter\<close> is set. When it does not filter, and in particular whenever
  \<^verbatim>\<open>enablePrivacyFilter\<close> is false, it returns the content unchanged and no analysis; when it
  filters, it returns the analysis and its filtered content.
\<close>

theorem filterContent_gate:
  "privacyFilterEnabled (filterContent env reply content opts) =
     ((case enablePrivacyFilter opts of None \<Rightarrow> True | Some b \<Rightarrow> b) \<and>
      (env = Some ''true'' \<or> forcePrivacyFilter opts = Some True)) \<and>
   (\<not> privacyFilterEnabled (filterContent env reply content opts) \<longrightarrow>
      result_filteredContent (filterContent env reply content opts) = content \<and>
      privacyAnalysis (filterContent env reply content opts) = None) \<and>
   (privacyFilterEnabled (filterContent env reply content opts) \<longrightarrow>
      privacyAnalysis (filterContent env reply content opts) = Some (analyzeContent reply content) \<and>
      result_filteredContent (filterContent env reply content opts) =
        filteredContent (analyzeContent reply content)) \<and>
   filterContent env reply content (opts\<lparr>enablePrivacyFilter := Some False\<rparr>) =
     \<lparr>result_filteredContent = content, privacyAnalysis = None, privacyFilterEnabled = False\<rparr>"
  by (cases "enablePrivacyFilter opts") (auto simp: filterContent_def Let_def)

text \<open>The filter disabled by the caller, disabled by default, and forced.\<close>

theorem filterContent_gate_witness:
  "filterContent (Some ''true'') None (JString ''My email is test@example.com'')
     \<lparr>enablePrivacyFilter = Some False, forcePrivacyFilter = Some True\<rparr> =
     \<lparr>result_filteredContent = JString ''My email is test@example.com'', privacyAnalysis = None,
      privacyFilterEnabled = False\<rparr> \<and>
   \<not> privacyFilterEnabled
       (filterContent None None (JString ''My email is test@example.com'')
          \<lparr>enablePrivacyFilter = None, forcePrivacyFilter = None\<rparr>) \<and>
   privacyFilterEnabled
       (filterContent None None (JString ''My email is test@example.com'')
          \<lparr>enablePrivacyFilter = None, forcePrivacyFilter = Some True\<rparr>)"
  using filterContent_gate [of "Some ''true''" None "JString ''My email is test@example.com''"
          "\<lparr>enablePrivacyFilter = Some False, forcePrivacyFilter = Some True\<rparr>"]
        filterContent_gate [of None None "JString ''My email is test@example.com''"
          "\<lparr>enablePrivacyFilter = None, forcePrivacyFilter = None\<rparr>"]
        filterContent_gate [of None None "JString ''My email is test@example.com''"
          "\<lparr>enablePrivacyFilter = None, forcePrivacyFilter = Some True\<rparr>"]
  by simp

section \<open>Severities and types of the findings\<close>

lemma pattern_issues_props:
  assumes "f \<in> set (pattern_issues s)"
  shows "issue_type f \<in> set pattern_types \<and> detectionMethod f = ''pattern'' \<and>
         (issue_riskLevel f = ''HIGH'' \<or> issue_riskLevel f = ''MEDIUM'')"
  using assms unfolding pattern_issues_def pattern_types_def
  by (auto dest!: found_props)

lemma ai_found_props:
  assumes "f \<in> set (ai_found reply s)"
  shows "detectionMethod f = ''ai'' \<and>
         (issue_riskLevel f = ''HIGH'' \<or> issue_riskLevel f = ''MEDIUM'')"
  using assms unfolding ai_found_def
  by (auto split: option.splits dest!: ai_issues_props)

lemma calculateRiskLevel_low_iff:
  assumes "\<forall>f\<in>set fs. issue_riskLevel f = ''HIGH'' \<or> issue_riskLevel f = ''MEDIUM''"
  shows "calculateRiskLevel fs = riskLevels_LOW \<longleftrightarrow> fs = []"
proof (cases fs)
  case Nil
  then show ?thesis by (simp add: calculateRiskLevel_def)
next
  case (Cons f fs')
  with assms have "issue_riskLevel f = ''HIGH'' \<or> issue_riskLevel f = ''MEDIUM''" by simp
  then have "calculateRiskLevel fs \<noteq> riskLevels_LOW"
    unfolding Cons calculateRiskLevel_def Let_def
    by (auto simp: riskLevels_HIGH_def riskLevels_MEDIUM_def riskLevels_LOW_def)
  with Cons show ?thesis by simp
qed

text \<open>
  Claim C9. Every finding of the analysis of a text has severity \<^verbatim>\<open>HIGH\<close> or
  \<^verbatim>\<open>MEDIUM\<close>, so the risk level of the analysis is low exactly when there is no finding, and
  \<^verbatim>\<open>isContentSafe\<close> holds exactly when there is no finding.
\<close>

theorem low_risk_iff_no_findings:
  "(\<forall>f\<in>set (detectedIssues (analyzeContent reply (JString s))).
      issue_riskLevel f = ''HIGH'' \<or> issue_riskLevel f = ''MEDIUM'') \<and>
   (riskLevel (analyzeContent reply (JString s)) = riskLevels_LOW \<longleftrightarrow>
      detectedIssues (analyzeContent reply (JString s)) = []) \<and>
   (isContentSafe reply (JString s) \<longleftrightarrow>
      detectedIssues (analyzeContent reply (JString s)) = [])"
proof -
  have sev: "\<forall>f\<in>set (all_issues reply s). issue_riskLevel f = ''HIGH'' \<or> issue_riskLevel f = ''MEDIUM''"
    by (auto simp: all_issues_def dest: pattern_issues_props ai_found_props)
  from calculateRiskLevel_low_iff [OF sev] sev show ?thesis
    by (simp add: analyzeContent_JString isContentSafe_def)
qed

text \<open>A text without findings and a text with one.\<close>

theorem low_risk_iff_no_findings_witness:
  "detectedIssues (analyzeContent None (JString ''Just posted about my latest project on GitHub'')) = [] \<and>
   isContentSafe None (JString ''Just posted about my latest project on GitHub'') \<and>
   detectedIssues (analyzeContent None (JString ''pay $5'')) \<noteq> [] \<and>
   \<not> isContentSafe None (JString ''pay $5'')"
proof -
  have a: "detectedIssues (analyzeContent None (JString ''Just posted about my latest project on GitHub'')) = []"
    by code_simp
  have b: "detectedIssues (analyzeContent None (JString ''pay $5'')) \<noteq> []"
    by code_simp
  from a b low_risk_iff_no_findings [of None "''Just posted about my latest project on GitHub''"]
    low_risk_iff_no_findings [of None "''pay $5''"]
  show ?thesis by simp
qed

text \<open>
  Claim C10. Without a reply of the external model, every finding comes from one of the
  fourteen pattern-based detectors and none has the type \<^verbatim>\<open>personalName\<close>; the pattern
  \<^verbatim>\<open>possibleNames\<close> is not among the detectors. With a reply, a finding of type
  \<^verbatim>\<open>personalName\<close> was added from the reply.
\<close>

theorem person_names_only_from_ai:
  "(\<forall>f\<in>set (detectedIssues (analyzeContent None content)).
      issue_type f \<in> set pattern_types \<and> issue_type f \<noteq> ''personalName'' \<and>
      detectionMethod f = ''pattern'') \<and>
   (\<forall>f\<in>set (detectedIssues (analyzeContent reply content)).
      issue_type f = ''personalName'' \<longrightarrow> detectionMethod f = ''ai'')"
proof (cases "\<exists>s. content = JString s")
  case True
  then obtain s where s: "content = JString s" by blast
  have t: "''personalName'' \<notin> set pattern_types" by (simp add: pattern_types_def)
  have 1: "\<forall>f\<in>set (detectedIssues (analyzeContent None content)).
      issue_type f \<in> set pattern_types \<and> issue_type f \<noteq> ''personalName'' \<and>
      detectionMethod f = ''pattern''"
    using t by (auto simp: s analyzeContent_JString all_issues_def ai_found_def
                     dest: pattern_issues_props)
  have 2: "\<forall>f\<in>set (detectedIssues (analyzeContent reply content)).
      issue_type f = ''personalName'' \<longrightarrow> detectionMethod f = ''ai''"
    using t by (auto simp: s analyzeContent_JString all_issues_def
                     dest: pattern_issues_props ai_found_props)
  from 1 2 show ?thesis by blast
next
  case False
  then show ?thesis by (simp add: analyzeContent_other initial_analysis_def)
qed

text \<open>
  The pattern \<^verbatim>\<open>possibleNames\<close> matches \<^verbatim>\<open>John Smith\<close>, but the analysis of a text with
  this name reports the company only.
\<close>

theorem person_names_only_from_ai_witness:
  "string_match patterns_possibleNames ''John Smith'' = Some [''John Smith''] \<and>
   detectedIssues (analyzeContent None (JString ''John Smith at Acme Corp'')) =
     [\<lparr>issue_type = ''companyName'', issue_value = ''Acme Corp'', issue_riskLevel = ''MEDIUM'',
       issue_position = 14, detectionMethod = ''pattern''\<rparr>] \<and>
   issue_type \<lparr>issue_type = ''companyName'', issue_value = ''Acme Corp'', issue_riskLevel = ''MEDIUM'',
       issue_position = 14, detectionMethod = ''pattern''\<rparr> \<noteq> ''personalName''"
proof -
  have a: "string_match patterns_possibleNames ''John Smith'' = Some [''John Smith'']"
    by code_simp
  have b: "detectedIssues (analyzeContent None (JString ''John Smith at Acme Corp'')) =
     [\<lparr>issue_type = ''companyName'', issue_value = ''Acme Corp'', issue_riskLevel = ''MEDIUM'',
       issue_position = 14, detectionMethod = ''pattern''\<rparr>]"
    by code_simp
  from person_names_only_from_ai [of "JString ''John Smith at Acme Corp''" None] a b
  show ?thesis by simp
qed

section \<open>Redaction\<close>


lemma sortedIssues_descending:
  "sorted_wrt (\<lambda>f g. issue_position g \<le> issue_position f) (sortedIssues fs)"
proof -
  have "sorted (map (\<lambda>f. - issue_position f) (sortedIssues fs))"
    unfolding sortedIssues_def by (rule sorted_sort_key)
  then show ?thesis by (simp add: sorted_map)
qed

lemma sortedIssues_stable:
  "filter (\<lambda>f. issue_position f = k) (sortedIssues fs) = filter (\<lambda>f. issue_position f = k) fs"
proof -
  have "filter (\<lambda>f. - issue_position f = - k) (sortedIssues fs) =
        filter (\<lambda>f. - issue_position f = - k) fs"
    unfolding sortedIssues_def by (rule sort_key_stable)
  then show ?thesis by simp
qed

lemma sortedIssues_same_offset:
  assumes "\<forall>f\<in>set fs. issue_position f = k"
  shows "sortedIssues fs = fs"
proof -
  have "sortedIssues fs = filter (\<lambda>f. issue_position f = k) (sortedIssues fs)"
    using assms by (simp add: sortedIssues_def)
  also have "\<dots> = filter (\<lambda>f. issue_position f = k) fs" by (rule sortedIssues_stable)
  also have "\<dots> = fs" using assms by simp
  finally show ?thesis .
qed

lemma redact_cases:
  "redact f (t, m) =
     (if 0 \<le> issue_position f then
        (take (nat (issue_position f)) t @ getReplacementText f
           @ drop (nat (issue_position f) + length (issue_value f)) t,
         AList.update (issue_value f) (getReplacementText f) m)
      else (t, m))"
  by (simp add: redact_def Let_def)







lemma applyFilters_same_offset:
  assumes "\<forall>f\<in>set (detectedIssues a). issue_position f = k"
  shows "applyFilters s a =
           (fst (fold redact (detectedIssues a) (s, anonymizationMap a)),
            a\<lparr>anonymizationMap := snd (fold redact (detectedIssues a) (s, anonymizationMap a))\<rparr>)"
  using sortedIssues_same_offset [OF assms] by (simp add: applyFilters_def Let_def)

lemma applyFilters_pair:
  assumes d: "detectedIssues a = [f, g]"
    and eq: "issue_position f = issue_position g"
    and pos: "0 \<le> issue_position f"
  shows "fst (applyFilters s a) =
           take (nat (issue_position f))
             (take (nat (issue_position f)) s @ getReplacementText f
                @ drop (nat (issue_position f) + length (issue_value f)) s)
           @ getReplacementText g
           @ drop (nat (issue_position f) + length (issue_value g))
               (take (nat (issue_position f)) s @ getReplacementText f
                  @ drop (nat (issue_position f) + length (issue_value f)) s)"
    and "anonymizationMap (snd (applyFilters s a)) =
           AList.update (issue_value g) (getReplacementText g)
             (AList.update (issue_value f) (getReplacementText f) (anonymizationMap a))"
proof -
  have "\<forall>h\<in>set (detectedIssues a). issue_position h = issue_position f"
    using d eq by simp
  from applyFilters_same_offset [OF this, of s]
  have e: "applyFilters s a =
           (fst (redact g (redact f (s, anonymizationMap a))),
            a\<lparr>anonymizationMap := snd (redact g (redact f (s, anonymizationMap a)))\<rparr>)"
    by (simp add: d)
  from pos eq have posg: "0 \<le> issue_position g" by simp
  show "fst (applyFilters s a) =
           take (nat (issue_position f))
             (take (nat (issue_position f)) s @ getReplacementText f
                @ drop (nat (issue_position f) + length (issue_value f)) s)
           @ getReplacementText g
           @ drop (nat (issue_position f) + length (issue_value g))
               (take (nat (issue_position f)) s @ getReplacementText f
                  @ drop (nat (issue_position f) + length (issue_value f)) s)"
    unfolding e using pos posg eq [symmetric] by (simp add: redact_cases)
  show "anonymizationMap (snd (applyFilters s a)) =
           AList.update (issue_value g) (getReplacementText g)
             (AList.update (issue_value f) (getReplacementText f) (anonymizationMap a))"
    unfolding e using pos posg by (simp add: redact_cases)
qed

lemma applyFilters_pair_inside:
  assumes d: "detectedIssues a = [f, g]"
    and eq: "issue_position f = issue_position g"
    and pos: "0 \<le> issue_position f"
    and le: "nat (issue_position f) \<le> length s"
  shows "fst (applyFilters s a) =
           take (nat (issue_position f)) s @ getReplacementText g
           @ drop (length (issue_value g))
               (getReplacementText f @ drop (nat (issue_position f) + length (issue_value f)) s)"
proof -
  let ?p = "nat (issue_position f)"
  let ?x = "getReplacementText f @ drop (?p + length (issue_value f)) s"
  have l: "length (take ?p s) = ?p" using le by simp
  have t: "take ?p (take ?p s @ ?x) = take ?p s"
    using l by simp
  have dr: "drop (?p + length (issue_value g)) (take ?p s @ ?x) = drop (length (issue_value g)) ?x"
    using l by (simp del: drop_append add: drop_append [of _ "take ?p s"])
  from applyFilters_pair(1) [OF d eq pos, of s] show ?thesis
    unfolding t dr by simp
qed

text \<open>
  Claim C4. Sorting keeps the findings of one position in the order in which they were
  found, and the sorted list is descending; \<^verbatim>\<open>applyFilters\<close> applies the replacement of
  \<open>redact\<close> to the findings in that order, so findings that all have the same position are
  applied in the order found, each on the text that the previous ones left. For two findings
  \<open>f\<close> and \<open>g\<close> at one position within the text, the filtered text is the text before the
  position, the placeholder of \<open>g\<close>, and what is left of the placeholder of \<open>f\<close> and the text
  after the value of \<open>f\<close> when as many code units as the value of \<open>g\<close> has are dropped from it.
  Two findings of an analysis with the same value have the same position. For the text
  \<^verbatim>\<open>123456789\<close> the bank account and the routing number detectors both report position 0,
  and applying both replacements there yields \<^verbatim>\<open>[ROUTING_REDACTED]REDACTED]\<close>.
\<close>

theorem same_offset_redaction:
  "filter (\<lambda>f. issue_position f = k) (sortedIssues fs) = filter (\<lambda>f. issue_position f = k) fs \<and>
   sorted_wrt (\<lambda>f g. issue_position g \<le> issue_position f) (sortedIssues fs) \<and>
   ((\<forall>f\<in>set fs. issue_position f = k) \<longrightarrow>
      sortedIssues fs = fs \<and> fold redact (sortedIssues fs) st = fold redact fs st) \<and>
   (issue_position f = issue_position g \<longrightarrow>
      fold redact (sortedIssues [f, g]) st = redact g (redact f st)) \<and>
   (\<forall>f\<in>set (detectedIssues (analyzeContent reply (JString s))).
    \<forall>g\<in>set (detectedIssues (analyzeContent reply (JString s))).
      issue_value f = issue_value g \<longrightarrow> issue_position f = issue_position g) \<and>
   detectedIssues (analyzeContent None (JString ''123456789'')) =
     [\<lparr>issue_type = ''bankAccount'', issue_value = ''123456789'', issue_riskLevel = ''HIGH'',
       issue_position = 0, detectionMethod = ''pattern''\<rparr>,
      \<lparr>issue_type = ''routingNumber'', issue_value = ''123456789'', issue_riskLevel = ''HIGH'',
       issue_position = 0, detectionMethod = ''pattern''\<rparr>] \<and>
   filteredContent (analyzeContent None (JString ''123456789'')) =
     JString ''[ROUTING_REDACTED]REDACTED]'' \<and>
   (\<forall>h t m. redact h (t, m) =
      (if 0 \<le> issue_position h then
         (take (nat (issue_position h)) t @ getReplacementText h
            @ drop (nat (issue_position h) + length (issue_value h)) t,
          AList.update (issue_value h) (getReplacementText h) m)
       else (t, m))) \<and>
   applyFilters s a =
     (fst (fold redact (sortedIssues (detectedIssues a)) (s, anonymizationMap a)),
      a\<lparr>anonymizationMap :=
          snd (fold redact (sortedIssues (detectedIssues a)) (s, anonymizationMap a))\<rparr>) \<and>
   ((\<forall>h\<in>set (detectedIssues a). issue_position h = k) \<longrightarrow>
      applyFilters s a =
        (fst (fold redact (detectedIssues a) (s, anonymizationMap a)),
         a\<lparr>anonymizationMap := snd (fold redact (detectedIssues a) (s, anonymizationMap a))\<rparr>)) \<and>
   (detectedIssues a = [f, g] \<and> issue_position f = issue_position g \<and> 0 \<le> issue_position f \<longrightarrow>
      fst (applyFilters s a) =
        take (nat (issue_position f))
          (take (nat (issue_position f)) s @ getReplacementText f
             @ drop (nat (issue_position f) + length (issue_value f)) s)
        @ getReplacementText g
        @ drop (nat (issue_position f) + length (issue_value g))
            (take (nat (issue_position f)) s @ getReplacementText f
               @ drop (nat (issue_position f) + length (issue_value f)) s) \<and>
      anonymizationMap (snd (applyFilters s a)) =
        AList.update (issue_value g) (getReplacementText g)
          (AList.update (issue_value f) (getReplacementText f) (anonymizationMap a)) \<and>
      (nat (issue_position f) \<le> length s \<longrightarrow>
         fst (applyFilters s a) =
           take (nat (issue_position f)) s @ getReplacementText g
           @ drop (length (issue_value g))
               (getReplacementText f @ drop (nat (issue_position f) + length (issue_value f)) s)))"
proof (intro conjI)
  show "filter (\<lambda>f. issue_position f = k) (sortedIssues fs) = filter (\<lambda>f. issue_position f = k) fs"
    by (rule sortedIssues_stable)
  show "sorted_wrt (\<lambda>f g. issue_position g \<le> issue_position f) (sortedIssues fs)"
    by (rule sortedIssues_descending)
  show "(\<forall>f\<in>set fs. issue_position f = k) \<longrightarrow>
      sortedIssues fs = fs \<and> fold redact (sortedIssues fs) st = fold redact fs st"
  proof
    assume "\<forall>f\<in>set fs. issue_position f = k"
    from sortedIssues_same_offset [OF this]
    show "sortedIssues fs = fs \<and> fold redact (sortedIssues fs) st = fold redact fs st"
      by simp
  qed
  show "issue_position f = issue_position g \<longrightarrow>
      fold redact (sortedIssues [f, g]) st = redact g (redact f st)"
  proof
    assume "issue_position f = issue_position g"
    then have "sortedIssues [f, g] = [f, g]"
      by (intro sortedIssues_same_offset [of _ "issue_position g"]) simp
    then show "fold redact (sortedIssues [f, g]) st = redact g (redact f st)" by simp
  qed
  show "\<forall>f\<in>set (detectedIssues (analyzeContent reply (JString s))).
    \<forall>g\<in>set (detectedIssues (analyzeContent reply (JString s))).
      issue_value f = issue_value g \<longrightarrow> issue_position f = issue_position g"
  proof (intro ballI impI)
    fix f g
    assume f: "f \<in> set (detectedIssues (analyzeContent reply (JString s)))"
      and g: "g \<in> set (detectedIssues (analyzeContent reply (JString s)))"
      and v: "issue_value f = issue_value g"
    have pos: "issue_position h = indexOf s (issue_value h)"
      if "h \<in> set (detectedIssues (analyzeContent reply (JString s)))" for h
    proof -
      from that have "h \<in> set (pattern_issues s) \<or> h \<in> set (ai_found reply s)"
        by (simp add: analyzeContent_JString all_issues_def)
      then show ?thesis
        by (auto simp: pattern_issues_def ai_found_def split: option.splits
                 dest: found_props ai_issues_props)
    qed
    from pos [OF f] pos [OF g] v show "issue_position f = issue_position g" by simp
  qed
  show "detectedIssues (analyzeContent None (JString ''123456789'')) =
     [\<lparr>issue_type = ''bankAccount'', issue_value = ''123456789'', issue_riskLevel = ''HIGH'',
       issue_position = 0, detectionMethod = ''pattern''\<rparr>,
      \<lparr>issue_type = ''routingNumber'', issue_value = ''123456789'', issue_riskLevel = ''HIGH'',
       issue_position = 0, detectionMethod = ''pattern''\<rparr>]"
    by code_simp
  show "filteredContent (analyzeContent None (JString ''123456789'')) =
     JString ''[ROUTING_REDACTED]REDACTED]''"
    by code_simp
  show "\<forall>h t m. redact h (t, m) =
      (if 0 \<le> issue_position h then
         (take (nat (issue_position h)) t @ getReplacementText h
            @ drop (nat (issue_position h) + length (issue_value h)) t,
          AList.update (issue_value h) (getReplacementText h) m)
       else (t, m))"
    by (simp add: redact_cases)
  show "applyFilters s a =
     (fst (fold redact (sortedIssues (detectedIssues a)) (s, anonymizationMap a)),
      a\<lparr>anonymizationMap :=
          snd (fold redact (sortedIssues (detectedIssues a)) (s, anonymizationMap a))\<rparr>)"
    by (simp add: applyFilters_def Let_def)
  show "(\<forall>h\<in>set (detectedIssues a). issue_position h = k) \<longrightarrow>
      applyFilters s a =
        (fst (fold redact (detectedIssues a) (s, anonymizationMap a)),
         a\<lparr>anonymizationMap := snd (fold redact (detectedIssues a) (s, anonymizationMap a))\<rparr>)"
    by (rule impI) (rule applyFilters_same_offset)
  show "detectedIssues a = [f, g] \<and> issue_position f = issue_position g \<and> 0 \<le> issue_position f \<longrightarrow>
      fst (applyFilters s a) =
        take (nat (issue_position f))
          (take (nat (issue_position f)) s @ getReplacementText f
             @ drop (nat (issue_position f) + length (issue_value f)) s)
        @ getReplacementText g
        @ drop (nat (issue_position f) + length (issue_value g))
            (take (nat (issue_position f)) s @ getReplacementText f
               @ drop (nat (issue_position f) + length (issue_value f)) s) \<and>
      anonymizationMap (snd (applyFilters s a)) =
        AList.update (issue_value g) (getReplacementText g)
          (AList.update (issue_value f) (getReplacementText f) (anonymizationMap a)) \<and>
      (nat (issue_position f) \<le> length s \<longrightarrow>
         fst (applyFilters s a) =
           take (nat (issue_position f)) s @ getReplacementText g
           @ drop (length (issue_value g))
               (getReplacementText f @ drop (nat (issue_position f) + length (issue_value f)) s))"
  proof (intro impI, elim conjE, intro conjI impI)
    assume d: "detectedIssues a = [f, g]" and e: "issue_position f = issue_position g"
      and p: "0 \<le> issue_position f"
    show "fst (applyFilters s a) =
        take (nat (issue_position f))
          (take (nat (issue_position f)) s @ getReplacementText f
             @ drop (nat (issue_position f) + length (issue_value f)) s)
        @ getReplacementText g
        @ drop (nat (issue_position f) + length (issue_value g))
            (take (nat (issue_position f)) s @ getReplacementText f
               @ drop (nat (issue_position f) + length (issue_value f)) s)"
      by (rule applyFilters_pair(1) [OF d e p])
    show "anonymizationMap (snd (applyFilters s a)) =
        AList.update (issue_value g) (getReplacementText g)
          (AList.update (issue_value f) (getReplacementText f) (anonymizationMap a))"
      by (rule applyFilters_pair(2) [OF d e p])
    assume "nat (issue_position f) \<le> length s"
    from applyFilters_pair_inside [OF d e p this]
    show "fst (applyFilters s a) =
           take (nat (issue_position f)) s @ getReplacementText g
           @ drop (length (issue_value g))
               (getReplacementText f @ drop (nat (issue_position f) + length (issue_value f)) s)" .
  qed
qed

text \<open>
  The two findings of \<^verbatim>\<open>123456789\<close>, applied by \<^verbatim>\<open>applyFilters\<close> one after the other at
  position 0.
\<close>

theorem same_offset_redaction_witness:
  "fst (applyFilters ''123456789'' nine_digits_analysis) = ''[ROUTING_REDACTED]REDACTED]'' \<and>
   anonymizationMap (snd (applyFilters ''123456789'' nine_digits_analysis)) =
     [(''123456789'', ''[ROUTING_REDACTED]'')]"
proof -
  have d: "detectedIssues nine_digits_analysis =
             [\<lparr>issue_type = ''bankAccount'', issue_value = ''123456789'', issue_riskLevel = ''HIGH'',
               issue_position = 0, detectionMethod = ''pattern''\<rparr>,
              \<lparr>issue_type = ''routingNumber'', issue_value = ''123456789'', issue_riskLevel = ''HIGH'',
               issue_position = 0, detectionMethod = ''pattern''\<rparr>]"
    and m: "anonymizationMap nine_digits_analysis = []"
    by (simp_all add: nine_digits_analysis_def initial_analysis_def)
  have r: "getReplacementText
             \<lparr>issue_type = ''bankAccount'', issue_value = ''123456789'', issue_riskLevel = ''HIGH'',
              issue_position = 0, detectionMethod = ''pattern''\<rparr> = ''[ACCOUNT_REDACTED]''"
    "getReplacementText
             \<lparr>issue_type = ''routingNumber'', issue_value = ''123456789'', issue_riskLevel = ''HIGH'',
              issue_position = 0, detectionMethod = ''pattern''\<rparr> = ''[ROUTING_REDACTED]''"
    by (simp_all add: getReplacementText_def replacements_def)
  from same_offset_redaction
         [where a = nine_digits_analysis and s = "''123456789''"
            and f = "\<lparr>issue_type = ''bankAccount'', issue_value = ''123456789'',
                       issue_riskLevel = ''HIGH'', issue_position = 0, detectionMethod = ''pattern''\<rparr>"
            and g = "\<lparr>issue_type = ''routingNumber'', issue_value = ''123456789'',
                       issue_riskLevel = ''HIGH'', issue_position = 0, detectionMethod = ''pattern''\<rparr>"]
  have "fst (applyFilters ''123456789'' nine_digits_analysis) =
          take 0 ''123456789'' @ ''[ROUTING_REDACTED]'' @
            drop (length ''123456789'') (''[ACCOUNT_REDACTED]'' @ drop (0 + length ''123456789'') ''123456789'')"
    and "anonymizationMap (snd (applyFilters ''123456789'' nine_digits_analysis)) =
          AList.update ''123456789'' ''[ROUTING_REDACTED]''
            (AList.update ''123456789'' ''[ACCOUNT_REDACTED]'' [])"
    using d m r by simp_all
  then show ?thesis by simp
qed

section \<open>Suggestions\<close>

















section \<open>Organization names\<close>

lemma lang_seqs_Cons:
  "w \<in> lang ci (seqs (r # rs)) \<Longrightarrow> \<exists>u v. w = u @ v \<and> u \<in> lang ci r \<and> v \<in> lang ci (seqs rs)"
  by (cases rs) auto

lemma lang_alts: "w \<in> lang ci (alts rs) \<Longrightarrow> \<exists>r\<in>set rs. w \<in> lang ci r"
  by (induction rs rule: alts.induct) (auto simp: cls_match_def)

lemma lang_lit: "w \<in> lang ci (lit s) \<Longrightarrow> list_all2 (\<lambda>c d. cls_match ci [d] c) w s"
  unfolding lit_def
proof (induction s arbitrary: w)
  case Nil
  then show ?case by simp
next
  case (Cons d s)
  then have "w \<in> lang ci (seqs (Cls [d] # map (\<lambda>c. Cls [c]) s))" by simp
  from lang_seqs_Cons [OF this] obtain u v where
    uv: "w = u @ v" "u \<in> lang ci (Cls [d])" "v \<in> lang ci (seqs (map (\<lambda>c. Cls [c]) s))"
    by blast
  from uv(2) obtain c where "u = [c]" "cls_match ci [d] c" by auto
  with uv(1) Cons.IH [OF uv(3)] show ?case by simp
qed

lemma lang_plus_Cls:
  assumes "w \<in> lang ci (rx_plus (Cls cs))"
  shows "w \<noteq> [] \<and> (\<forall>c\<in>set w. cls_match ci cs c)"
proof -
  from assms obtain ws where ws: "w = concat ws" "set ws \<subseteq> lang ci (Cls cs)" "1 \<le> length ws"
    by (auto simp: rx_plus_def)
  from ws(3) obtain x xs where x: "ws = x # xs" by (cases ws) auto
  with ws(2) obtain c where "x = [c]" by auto
  with x ws(1) have "w \<noteq> []" by simp
  moreover have "\<forall>c\<in>set w. cls_match ci cs c"
    using ws(1,2) by auto
  ultimately show ?thesis by simp
qed

lemma swap_case_letter:
  "swap_case c \<noteq> c \<Longrightarrow> c \<in> set (lower_chars @ upper_chars) \<and> swap_case c \<in> set (upper_chars @ lower_chars)"
proof -
  assume a: "swap_case c \<noteq> c"
  then obtain d where d: "map_of (zip (lower_chars @ upper_chars) (upper_chars @ lower_chars)) c = Some d"
    and sd: "swap_case c = d"
    by (auto simp: swap_case_def split: option.splits)
  from map_of_SomeD [OF d] have "(c, d) \<in> set (zip (lower_chars @ upper_chars) (upper_chars @ lower_chars))" .
  then have "c \<in> set (lower_chars @ upper_chars)" "d \<in> set (upper_chars @ lower_chars)"
    by (auto dest: set_zip_leftD set_zip_rightD)
  with sd show ?thesis by simp
qed

lemma cls_match_word: "cls_match ci word_chars c \<Longrightarrow> is_word_char c"
proof -
  assume "cls_match ci word_chars c"
  then consider "c \<in> set word_chars" | "swap_case c \<in> set word_chars" "swap_case c \<noteq> c"
    by (cases "swap_case c = c") (auto simp: cls_match_def)
  then show ?thesis
  proof cases
    case 1
    then show ?thesis by (simp add: is_word_char_def)
  next
    case 2
    from swap_case_letter [OF 2(2)] show ?thesis
      by (auto simp: is_word_char_def word_chars_def)
  qed
qed

lemma letters_not_space: "list_all (\<lambda>c. c \<notin> set space_chars) (upper_chars @ lower_chars)"
  by code_simp

lemma cls_match_space: "cls_match ci space_chars c \<Longrightarrow> is_space_char c"
proof -
  assume "cls_match ci space_chars c"
  then consider "c \<in> set space_chars" | "swap_case c \<in> set space_chars" "swap_case c \<noteq> c"
    by (cases "swap_case c = c") (auto simp: cls_match_def)
  then show ?thesis
  proof cases
    case 1
    then show ?thesis by (simp add: is_space_char_def)
  next
    case 2
    from swap_case_letter [OF 2(2)] have "swap_case c \<in> set (upper_chars @ lower_chars)" by simp
    with letters_not_space have "swap_case c \<notin> set space_chars"
      by (simp add: list_all_iff)
    with 2(1) show ?thesis by simp
  qed
qed

lemma cls_match_single: "cls_match True [d] c \<Longrightarrow> eq_ignore_case c d"
  by (auto simp: cls_match_def eq_ignore_case_def)

lemma company_lang:
  assumes "v \<in> lang True (fst companyPattern)"
  shows "\<exists>w sp suf. v = w @ sp @ suf \<and> w \<noteq> [] \<and> (\<forall>c\<in>set w. is_word_char c) \<and>
           sp \<noteq> [] \<and> (\<forall>c\<in>set sp. is_space_char c) \<and>
           (\<exists>ind\<in>set companyIndicators. list_all2 eq_ignore_case suf ind)"
proof -
  from assms have "v \<in> lang True (seqs [WordB, rx_plus rx_word, rx_plus rx_space,
                                        alts (map lit companyIndicators), WordB])"
    by (simp add: companyPattern_def)
  from lang_seqs_Cons [OF this] obtain u1 v1 where
    1: "v = u1 @ v1" "u1 \<in> lang True WordB"
       "v1 \<in> lang True (seqs [rx_plus rx_word, rx_plus rx_space, alts (map lit companyIndicators), WordB])"
    by blast
  from lang_seqs_Cons [OF 1(3)] obtain w v2 where
    2: "v1 = w @ v2" "w \<in> lang True (rx_plus rx_word)"
       "v2 \<in> lang True (seqs [rx_plus rx_space, alts (map lit companyIndicators), WordB])"
    by blast
  from lang_seqs_Cons [OF 2(3)] obtain sp v3 where
    3: "v2 = sp @ v3" "sp \<in> lang True (rx_plus rx_space)"
       "v3 \<in> lang True (seqs [alts (map lit companyIndicators), WordB])"
    by blast
  from lang_seqs_Cons [OF 3(3)] obtain suf v4 where
    4: "v3 = suf @ v4" "suf \<in> lang True (alts (map lit companyIndicators))"
       "v4 \<in> lang True (seqs [WordB])"
    by blast
  from 1(2) 4(3) have e: "u1 = []" "v4 = []" by simp_all
  from lang_plus_Cls [OF 2(2) [unfolded rx_word_def]]
  have w: "w \<noteq> []" "\<forall>c\<in>set w. is_word_char c" by (auto dest: cls_match_word)
  from lang_plus_Cls [OF 3(2) [unfolded rx_space_def]]
  have sp: "sp \<noteq> []" "\<forall>c\<in>set sp. is_space_char c" by (auto dest: cls_match_space)
  from lang_alts [OF 4(2)] obtain ind where
    ind: "ind \<in> set companyIndicators" "suf \<in> lang True (lit ind)" by auto
  from lang_lit [OF ind(2)] have "list_all2 eq_ignore_case suf ind"
    by (rule list_all2_mono) (rule cls_match_single)
  with ind(1) have s: "\<exists>ind\<in>set companyIndicators. list_all2 eq_ignore_case suf ind" by blast
  have "v = w @ sp @ suf" using 1(1) 2(1) 3(1) 4(1) e by simp
  with w sp s show ?thesis by blast
qed

lemma rmatch_Cls_fail: "rest = [] \<or> \<not> cls_match ci cs (hd rest) \<Longrightarrow> rmatch ci (Cls cs) (p, rest) = []"
  by (cases rest) auto

lemma rep_run:
  assumes step: "\<And>p c s. ok c \<Longrightarrow> m (p, c # s) = [(Some c, s)]"
    and fail: "\<And>p. m (p, rest) = []"
  shows "\<forall>c\<in>set w. ok c \<Longrightarrow> length w \<le> n \<Longrightarrow> lo \<le> 1 \<Longrightarrow> w \<noteq> [] \<or> lo = 0 \<Longrightarrow>
           \<exists>ys. rep m lo n (p, w @ rest) = (prev_after p w, rest) # ys"
proof (induction w arbitrary: lo n p)
  case Nil
  then have lo: "lo = 0" by simp
  show ?case
  proof (cases n)
    case 0
    then show ?thesis by (simp add: prev_after_Nil)
  next
    case (Suc n')
    with lo fail show ?thesis by (simp add: prev_after_Nil)
  qed
next
  case (Cons c w')
  from Cons.prems(2) obtain n' where n: "n = Suc n'" by (cases n) auto
  from Cons.prems(1) have c: "ok c" by simp
  have lo': "lo - 1 = 0" using Cons.prems(3) by simp
  have "\<exists>ys. rep m (lo - 1) n' (Some c, w' @ rest) = (prev_after (Some c) w', rest) # ys"
    using Cons.prems n lo' by (intro Cons.IH) auto
  then obtain ys where
    ys: "rep m (lo - 1) n' (Some c, w' @ rest) = (prev_after (Some c) w', rest) # ys"
    by blast
  have mx: "m (p, c # w' @ rest) = [(Some c, w' @ rest)]" using c by (rule step)
  have "rep m lo n (p, (c # w') @ rest) =
          rep m (lo - 1) n' (Some c, w' @ rest) @ (if lo = 0 then [(p, (c # w') @ rest)] else [])"
    using mx n by simp
  with ys show ?case by (simp add: prev_after_Cons)
qed

lemma plus_class_run:
  assumes "w \<noteq> []" "\<forall>c\<in>set w. cls_match ci cs c" "rest = [] \<or> \<not> cls_match ci cs (hd rest)"
  shows "\<exists>ys. rmatch ci (rx_plus (Cls cs)) (p, w @ rest) = (Some (last w), rest) # ys"
proof -
  have step: "rmatch ci (Cls cs) (q, c # s) = [(Some c, s)]" if "cls_match ci cs c" for q c s
    using that by simp
  have fail: "rmatch ci (Cls cs) (q, rest) = []" for q
    using assms(3) by (rule rmatch_Cls_fail)
  from rep_run [of "cls_match ci cs" "rmatch ci (Cls cs)" rest w "1 + length (w @ rest)" 1 p,
                OF step fail] assms(1,2)
  obtain ys where "rep (rmatch ci (Cls cs)) 1 (1 + length (w @ rest)) (p, w @ rest) =
                     (prev_after p w, rest) # ys"
    by auto
  with assms(1) have "rmatch ci (Rep (Cls cs) 1 None) (p, w @ rest) = (Some (last w), rest) # ys"
    by (simp only: rmatch.simps option.case snd_conv prev_after_def if_False)
  then show ?thesis by (auto simp only: rx_plus_def)
qed

lemma seq_first:
  "rmatch ci r1 x = x1 # ys1 \<Longrightarrow> rmatch ci r2 x1 = z # zs \<Longrightarrow> \<exists>ys. rmatch ci (Seq r1 r2) x = z # ys"
  by simp

lemma rmatch_seqs_lit_complete:
  "list_all2 (\<lambda>c e. cls_match ci [e] c) u d \<Longrightarrow>
     (prev_after p u, t) \<in> set (rmatch ci (seqs (map (\<lambda>c. Cls [c]) d)) (p, u @ t))"
proof (induction d arbitrary: u p)
  case Nil
  then show ?case by (simp add: prev_after_Nil)
next
  case (Cons e d')
  then obtain c u' where u: "u = c # u'" "cls_match ci [e] c"
    "list_all2 (\<lambda>c e. cls_match ci [e] c) u' d'"
    by (auto simp: list_all2_Cons2)
  show ?case
  proof (cases d')
    case Nil
    with u have "u' = []" by simp
    with u Nil show ?thesis by (simp add: prev_after_def)
  next
    case (Cons e' d'')
    from Cons.IH [OF u(3), of "Some c"]
    have "(prev_after (Some c) u', t) \<in> set (rmatch ci (seqs (map (\<lambda>c. Cls [c]) d')) (Some c, u' @ t))" .
    with u Cons show ?thesis by (simp add: prev_after_Cons)
  qed
qed

lemma rmatch_alts_mem:
  "q \<in> set rs \<Longrightarrow> y \<in> set (rmatch ci q x) \<Longrightarrow> y \<in> set (rmatch ci (alts rs) x)"
proof (induction rs)
  case Nil
  from Nil(1) have False by simp
  then show ?case ..
next
  case (Cons a rs)
  show ?case
  proof (cases rs)
    case Nil
    with Cons.prems show ?thesis by simp
  next
    case (Cons b rs')
    have e: "rmatch ci (alts (a # rs)) x = rmatch ci a x @ rmatch ci (alts rs) x"
      unfolding Cons by simp
    from Cons.prems(1) have "q = a \<or> q \<in> set rs" by simp
    then show ?thesis
    proof
      assume "q = a"
      with Cons.prems(2) e show ?thesis by simp
    next
      assume "q \<in> set rs"
      from Cons.IH [OF this Cons.prems(2)] e show ?thesis by simp
    qed
  qed
qed

lemma rmatch_alts_elim:
  "y \<in> set (rmatch ci (alts rs) x) \<Longrightarrow> \<exists>q\<in>set rs. y \<in> set (rmatch ci q x)"
proof (induction rs rule: alts.induct)
  case 1
  then show ?case by (cases x) (auto simp: cls_match_def split: list.splits)
next
  case (2 r')
  then show ?case by simp
next
  case (3 r' v va)
  then show ?case by auto
qed

lemma is_letter_word: "is_letter c \<Longrightarrow> is_word_char c"
  by (auto simp: is_letter_def is_word_char_def word_chars_def)

lemma is_letter_not_space: "is_letter c \<Longrightarrow> \<not> is_space_char c"
  using letters_not_space by (auto simp: is_letter_def is_space_char_def list_all_iff)

lemma space_not_word_list: "list_all (\<lambda>c. c \<notin> set word_chars) space_chars"
  by code_simp

lemma is_space_not_word: "is_space_char c \<Longrightarrow> \<not> is_word_char c"
  using space_not_word_list by (auto simp: is_space_char_def is_word_char_def list_all_iff)

lemma indicators_letters: "list_all (\<lambda>ind. ind \<noteq> [] \<and> list_all is_letter ind) companyIndicators"
  by code_simp

lemma eq_ignore_case_letter: "eq_ignore_case c e \<Longrightarrow> is_letter e \<Longrightarrow> is_letter c"
proof (cases "c = e")
  case True
  then show "is_letter e \<Longrightarrow> is_letter c" by simp
next
  case False
  assume "eq_ignore_case c e"
  with False have "swap_case c \<noteq> c" by (auto simp: eq_ignore_case_def)
  from swap_case_letter [OF this] show "is_letter c" by (simp add: is_letter_def)
qed

lemma eq_ignore_case_letters:
  "list_all2 eq_ignore_case u d \<Longrightarrow> list_all is_letter d \<Longrightarrow> list_all is_letter u"
  by (induction rule: list_all2_induct) (auto dest: eq_ignore_case_letter)

lemma mem_nonempty: "x \<in> set xs \<Longrightarrow> xs \<noteq> []"
  by auto

lemma first_of_constant:
  "xs \<noteq> [] \<Longrightarrow> \<forall>x\<in>set xs. x = v \<Longrightarrow> \<exists>ys. xs = v # ys"
  by (cases xs) auto

lemma company_first:
  assumes w: "w \<noteq> []" "\<forall>c\<in>set w. is_word_char c"
    and pre: "pre = [] \<or> \<not> is_word_char (last pre)"
    and sp: "sp \<noteq> []" "\<forall>c\<in>set sp. is_space_char c"
    and ind: "ind \<in> set companyIndicators" "list_all2 eq_ignore_case suf ind"
    and post: "post = [] \<or> \<not> is_word_char (hd post)"
  shows "\<exists>ys. rmatch True (fst companyPattern) (prev_after None pre, w @ sp @ suf @ post) =
               (Some (last suf), post) # ys"
proof -
  let ?alts = "alts (map lit companyIndicators)"
  let ?x0 = "(prev_after None pre, w @ sp @ suf @ post)"
  let ?x1 = "(Some (last w), sp @ suf @ post)"
  let ?x2 = "(Some (last sp), suf @ post)"
  let ?x3 = "(Some (last suf), post)"
  from ind(1) indicators_letters have indl: "ind \<noteq> []" "list_all is_letter ind"
    by (auto simp: list_all_iff)
  from ind(2) indl(1) have sufne: "suf \<noteq> []" by auto
  from eq_ignore_case_letters [OF ind(2) indl(2)] have sufl: "\<forall>c\<in>set suf. is_letter c"
    by (simp add: list_all_iff)
  \<comment> \<open>the word boundary before the word\<close>
  have pw: "\<not> (case prev_after None pre of None \<Rightarrow> False | Some c \<Rightarrow> is_word_char c)"
    using pre by (auto simp: prev_after_def)
  have hw: "is_word_char (hd w)" using w by (cases w) auto
  have b0: "rmatch True WordB ?x0 = [?x0]"
    using pw hw w(1) by (cases w) (auto simp: Let_def)
  \<comment> \<open>the word\<close>
  have "\<not> cls_match True word_chars (hd (sp @ suf @ post))"
    using sp by (cases sp) (auto dest!: cls_match_word is_space_not_word)
  then have "\<exists>ys. rmatch True (rx_plus rx_word) ?x0 = ?x1 # ys"
    unfolding rx_word_def using w
    by (intro plus_class_run) (auto simp: cls_match_def is_word_char_def)
  then obtain ys1 where r1: "rmatch True (rx_plus rx_word) ?x0 = ?x1 # ys1" by blast
  \<comment> \<open>the white space\<close>
  have "\<not> cls_match True space_chars (hd (suf @ post))"
    using sufne sufl by (cases suf) (auto dest!: cls_match_space is_letter_not_space)
  then have "\<exists>ys. rmatch True (rx_plus rx_space) ?x1 = ?x2 # ys"
    unfolding rx_space_def using sp
    by (intro plus_class_run) (auto simp: cls_match_def is_space_char_def)
  then obtain ys2 where r2: "rmatch True (rx_plus rx_space) ?x1 = ?x2 # ys2" by blast
  \<comment> \<open>the indicator and the word boundary after it\<close>
  have lastl: "is_word_char (last suf)"
    using sufne sufl by (auto intro: is_letter_word)
  have b3: "rmatch True WordB ?x3 = [?x3]"
    using lastl post by (cases post) (auto simp: Let_def)
  have "list_all2 (\<lambda>c e. cls_match True [e] c) suf ind"
    using ind(2) by (rule list_all2_mono) (auto simp: eq_ignore_case_def cls_match_def)
  from rmatch_seqs_lit_complete [OF this, of "Some (last sp)" post]
  have "(prev_after (Some (last sp)) suf, post) \<in> set (rmatch True (lit ind) ?x2)"
    by (simp add: lit_def)
  then have "?x3 \<in> set (rmatch True (lit ind) ?x2)"
    using sufne by (simp add: prev_after_def)
  moreover have "lit ind \<in> set (map lit companyIndicators)" using ind(1) by simp
  ultimately have mem: "?x3 \<in> set (rmatch True ?alts ?x2)"
    by (rule rmatch_alts_mem [rotated])
  have only: "z = ?x3" if y: "y \<in> set (rmatch True ?alts ?x2)" and z: "z \<in> set (rmatch True WordB y)"
    for y z
  proof -
    have zy: "z = y" and bd: "rmatch True WordB y = [y]"
      using z by (auto simp: Let_def split: if_splits)
    from rmatch_alts_elim [OF y] obtain q where
      q: "q \<in> set (map lit companyIndicators)" "y \<in> set (rmatch True q ?x2)" by blast
    from q(1) obtain i where i: "i \<in> set companyIndicators" "q = lit i" by auto
    note yi = q(2) [unfolded i(2)]
    from rmatch_lang [OF yi] obtain u where u: "suf @ post = u @ snd y" "u \<in> lang True (lit i)"
      by auto
    from rmatch_track [OF yi] obtain u' where u': "suf @ post = u' @ snd y"
      "fst y = prev_after (Some (last sp)) u'" by auto
    have "u @ snd y = u' @ snd y" using u(1) u'(1) by (rule trans [OF sym])
    then have "u' = u" by simp
    with u'(2) have fy: "fst y = prev_after (Some (last sp)) u" by simp
    from lang_lit [OF u(2)] have ui: "list_all2 eq_ignore_case u i"
      by (rule list_all2_mono) (rule cls_match_single)
    from i(1) indicators_letters have il: "i \<noteq> []" "list_all is_letter i"
      by (simp_all add: list_all_iff)
    from ui il(1) have une: "u \<noteq> []" by (cases u) simp_all
    from eq_ignore_case_letters [OF ui il(2)] have ul: "\<forall>c\<in>set u. is_letter c"
      by (simp add: list_all_iff)
    from une ul have "is_letter (last u)" by simp
    then have lw: "is_word_char (last u)" by (rule is_letter_word)
    from fy une have fy': "fst y = Some (last u)" by (simp add: prev_after_def)
    have nb: "snd y = [] \<or> \<not> is_word_char (hd (snd y))"
    proof (cases "snd y")
      case Nil
      then show ?thesis by simp
    next
      case (Cons d t')
      have "rmatch True WordB y = (if True \<noteq> is_word_char d then [y] else [])"
        using fy' lw Cons by (simp add: Let_def)
      with bd have "\<not> is_word_char d" by (simp split: if_splits)
      with Cons show ?thesis by simp
    qed
    from u(1) have "\<exists>v. (suf = u @ v \<and> v @ post = snd y) \<or> (suf @ v = u \<and> post = v @ snd y)"
      by (simp only: append_eq_append_conv2)
    then obtain v where
      v: "(suf = u @ v \<and> v @ post = snd y) \<or> (suf @ v = u \<and> post = v @ snd y)" by blast
    have "v = []"
    proof (rule ccontr)
      assume "v \<noteq> []"
      then obtain d v' where dv: "v = d # v'" by (cases v) auto
      from v show False
      proof
        assume c1: "suf = u @ v \<and> v @ post = snd y"
        then have sy: "snd y = d # (v' @ post)" and "d \<in> set suf"
          using dv by simp_all
        with sufl have "is_word_char d" by (auto intro: is_letter_word)
        with nb sy show False by simp
      next
        assume c2: "suf @ v = u \<and> post = v @ snd y"
        then have sy: "post = d # (v' @ snd y)" and "d \<in> set u"
          using dv by auto
        with ul have "is_word_char d" by (auto intro: is_letter_word)
        with post sy show False by simp
      qed
    qed
    with v have "u = suf" "snd y = post" by auto
    with fy' zy show "z = ?x3" by (cases y) simp
  qed
  have "?x3 \<in> (\<Union>y\<in>set (rmatch True ?alts ?x2). set (rmatch True WordB y))"
    using mem b3 by (intro UN_I [of ?x3]) (simp_all del: rmatch.simps)
  then have "?x3 \<in> set (rmatch True (Seq ?alts WordB) ?x2)"
    by (simp del: rmatch.simps(5))
  then have "rmatch True (Seq ?alts WordB) ?x2 \<noteq> []" by (rule mem_nonempty)
  moreover have "\<forall>z\<in>set (rmatch True (Seq ?alts WordB) ?x2). z = ?x3"
    using only by (auto simp del: rmatch.simps(5))
  ultimately have "\<exists>ys. rmatch True (Seq ?alts WordB) ?x2 = ?x3 # ys"
    by (rule first_of_constant)
  then obtain ys3 where r3: "rmatch True (Seq ?alts WordB) ?x2 = ?x3 # ys3" by blast
  from seq_first [OF r2 r3] obtain ys4 where
    r4: "rmatch True (Seq (rx_plus rx_space) (Seq ?alts WordB)) ?x1 = ?x3 # ys4" by blast
  from seq_first [OF r1 r4] obtain ys5 where
    r5: "rmatch True (Seq (rx_plus rx_word) (Seq (rx_plus rx_space) (Seq ?alts WordB))) ?x0 = ?x3 # ys5"
    by blast
  from seq_first [OF b0 r5] obtain ys6 where
    r6: "rmatch True (Seq WordB (Seq (rx_plus rx_word) (Seq (rx_plus rx_space) (Seq ?alts WordB)))) ?x0
           = ?x3 # ys6"
    by blast
  have "fst companyPattern =
          Seq WordB (Seq (rx_plus rx_word) (Seq (rx_plus rx_space) (Seq ?alts WordB)))"
    by (simp add: companyPattern_def)
  with r6 show ?thesis by simp
qed

lemma company_nonempty: "[] \<notin> lang True (fst companyPattern)"
  using company_lang [of "[]"] by auto

lemma company_complete:
  assumes s: "s = pre @ w @ sp @ suf @ post"
    and w: "w \<noteq> []" "\<forall>c\<in>set w. is_word_char c"
    and pre: "pre = [] \<or> \<not> is_word_char (last pre)"
    and sp: "sp \<noteq> []" "\<forall>c\<in>set sp. is_space_char c"
    and ind: "ind \<in> set companyIndicators" "list_all2 eq_ignore_case suf ind"
    and post: "post = [] \<or> \<not> is_word_char (hd post)"
  shows "\<exists>f\<in>set (found companyPattern ''companyName'' ''MEDIUM'' s). \<exists>a b.
           s = a @ issue_value f @ b \<and> length a \<le> length pre \<and>
           length pre < length a + length (issue_value f) \<and>
           (length a = length pre \<longrightarrow> issue_value f = w @ sp @ suf)"
proof -
  from company_first [OF w pre sp ind post] obtain ys where
    first: "rmatch True (fst companyPattern) (prev_after None pre, w @ sp @ suf @ post) =
              (Some (last suf), post) # ys" by blast
  then have hit: "rmatch True (fst companyPattern) (prev_after None pre, w @ sp @ suf @ post) \<noteq> []"
    by simp
  from match_global_covers [OF company_nonempty s hit] obtain a m b where
    c: "s = a @ m @ b" "m \<in> set (match_global True (fst companyPattern) None s)"
       "length a \<le> length pre" "length pre < length a + length m"
       "length a = length pre \<longrightarrow>
          (\<exists>ys. rmatch True (fst companyPattern) (prev_after None pre, w @ sp @ suf @ post) =
                  (prev_after None (pre @ m), b) # ys)"
    by blast
  let ?f = "\<lparr>issue_type = ''companyName'', issue_value = m, issue_riskLevel = ''MEDIUM'',
             issue_position = indexOf s m, detectionMethod = ''pattern''\<rparr>"
  have fm: "?f \<in> set (found companyPattern ''companyName'' ''MEDIUM'' s)"
    using c(2) by (simp add: found_def companyPattern_def)
  have "length a = length pre \<longrightarrow> m = w @ sp @ suf"
  proof
    assume l: "length a = length pre"
    with c(5) first have "b = post" by auto
    from c(1) s l have "a = pre" "m @ b = w @ sp @ suf @ post" by auto
    with \<open>b = post\<close> show "m = w @ sp @ suf" by simp
  qed
  with c(1,3,4) have "s = a @ issue_value ?f @ b \<and> length a \<le> length pre \<and>
           length pre < length a + length (issue_value ?f) \<and>
           (length a = length pre \<longrightarrow> issue_value ?f = w @ sp @ suf)"
    by simp
  with fm show ?thesis by blast
qed

text \<open>
  Claim C8, as amended. On a text, \<^verbatim>\<open>detectCompanyNames\<close> adds findings of type
  \<^verbatim>\<open>companyName\<close>, severity \<^verbatim>\<open>MEDIUM\<close> and detection method \<^verbatim>\<open>pattern\<close>. The value of each
  consists of one or more word characters (letters of either case, digits, underscore), one or
  more white space characters, and one of the company indicators up to the case of its
  letters. Conversely, wherever the text holds such a word, white space and indicator between
  two word boundaries, a finding is reported whose value stands in the text over the first
  code unit of the word; if this value starts with the word, it is the word, the white space
  and the indicator.
\<close>

theorem detectCompanyNames_findings:
  "detectCompanyNames (JString s) a =
     Inr (a\<lparr>detectedIssues := detectedIssues a @ found companyPattern ''companyName'' ''MEDIUM'' s\<rparr>) \<and>
   (\<forall>f\<in>set (found companyPattern ''companyName'' ''MEDIUM'' s).
      issue_type f = ''companyName'' \<and> issue_riskLevel f = ''MEDIUM'' \<and>
      detectionMethod f = ''pattern'' \<and>
      (\<exists>w sp suf. issue_value f = w @ sp @ suf \<and>
         w \<noteq> [] \<and> (\<forall>c\<in>set w. is_word_char c) \<and>
         sp \<noteq> [] \<and> (\<forall>c\<in>set sp. is_space_char c) \<and>
         (\<exists>ind\<in>set companyIndicators. list_all2 eq_ignore_case suf ind))) \<and>
   (\<forall>pre w sp suf post ind.
      s = pre @ w @ sp @ suf @ post \<and>
      w \<noteq> [] \<and> (\<forall>c\<in>set w. is_word_char c) \<and> (pre = [] \<or> \<not> is_word_char (last pre)) \<and>
      sp \<noteq> [] \<and> (\<forall>c\<in>set sp. is_space_char c) \<and>
      ind \<in> set companyIndicators \<and> list_all2 eq_ignore_case suf ind \<and>
      (post = [] \<or> \<not> is_word_char (hd post)) \<longrightarrow>
      (\<exists>f\<in>set (found companyPattern ''companyName'' ''MEDIUM'' s). \<exists>u v.
         s = u @ issue_value f @ v \<and> length u \<le> length pre \<and>
         length pre < length u + length (issue_value f) \<and>
         (length u = length pre \<longrightarrow> issue_value f = w @ sp @ suf)))"
proof (intro conjI ballI allI impI)
  show "detectCompanyNames (JString s) a =
     Inr (a\<lparr>detectedIssues := detectedIssues a @ found companyPattern ''companyName'' ''MEDIUM'' s\<rparr>)"
    by (rule detectCompanyNames_JString)
next
  fix f assume "f \<in> set (found companyPattern ''companyName'' ''MEDIUM'' s)"
  from found_props [OF this]
  have p: "issue_type f = ''companyName''" "issue_riskLevel f = ''MEDIUM''"
    "detectionMethod f = ''pattern''" "issue_value f \<in> lang (snd companyPattern) (fst companyPattern)"
    by simp_all
  have "snd companyPattern = True" by (simp add: companyPattern_def)
  with p(4) have "issue_value f \<in> lang True (fst companyPattern)" by simp
  from company_lang [OF this] p(1-3)
  show "issue_type f = ''companyName''" "issue_riskLevel f = ''MEDIUM''"
      "detectionMethod f = ''pattern''"
     "\<exists>w sp suf. issue_value f = w @ sp @ suf \<and>
         w \<noteq> [] \<and> (\<forall>c\<in>set w. is_word_char c) \<and>
         sp \<noteq> [] \<and> (\<forall>c\<in>set sp. is_space_char c) \<and>
         (\<exists>ind\<in>set companyIndicators. list_all2 eq_ignore_case suf ind)"
    by simp_all
next
  fix pre w sp suf post ind
  assume h: "s = pre @ w @ sp @ suf @ post \<and>
      w \<noteq> [] \<and> (\<forall>c\<in>set w. is_word_char c) \<and> (pre = [] \<or> \<not> is_word_char (last pre)) \<and>
      sp \<noteq> [] \<and> (\<forall>c\<in>set sp. is_space_char c) \<and>
      ind \<in> set companyIndicators \<and> list_all2 eq_ignore_case suf ind \<and>
      (post = [] \<or> \<not> is_word_char (hd post))"
  then have "s = pre @ w @ sp @ suf @ post" "w \<noteq> []" "\<forall>c\<in>set w. is_word_char c"
    "pre = [] \<or> \<not> is_word_char (last pre)" "sp \<noteq> []" "\<forall>c\<in>set sp. is_space_char c"
    "ind \<in> set companyIndicators" "list_all2 eq_ignore_case suf ind"
    "post = [] \<or> \<not> is_word_char (hd post)"
    by blast+
  then show "\<exists>f\<in>set (found companyPattern ''companyName'' ''MEDIUM'' s). \<exists>u v.
         s = u @ issue_value f @ v \<and> length u \<le> length pre \<and>
         length pre < length u + length (issue_value f) \<and>
         (length u = length pre \<longrightarrow> issue_value f = w @ sp @ suf)"
    by (rule company_complete)
qed

text \<open>
  The finding of \<^verbatim>\<open>I work at Acme Corp\<close>, and the text \<^verbatim>\<open>Foo LLC\<close>, which is a word, a
  space and an indicator and so is reported.
\<close>

theorem detectCompanyNames_findings_witness:
  "found companyPattern ''companyName'' ''MEDIUM'' ''I work at Acme Corp'' =
     [\<lparr>issue_type = ''companyName'', issue_value = ''Acme Corp'', issue_riskLevel = ''MEDIUM'',
       issue_position = 10, detectionMethod = ''pattern''\<rparr>] \<and>
   (\<exists>w sp suf. ''Acme Corp'' = w @ sp @ suf \<and>
         w \<noteq> [] \<and> (\<forall>c\<in>set w. is_word_char c) \<and>
         sp \<noteq> [] \<and> (\<forall>c\<in>set sp. is_space_char c) \<and>
         (\<exists>ind\<in>set companyIndicators. list_all2 eq_ignore_case suf ind)) \<and>
   ''Foo LLC'' \<in> issue_value ` set (found companyPattern ''companyName'' ''MEDIUM'' ''Foo LLC'')"
proof -
  have a: "found companyPattern ''companyName'' ''MEDIUM'' ''I work at Acme Corp'' =
     [\<lparr>issue_type = ''companyName'', issue_value = ''Acme Corp'', issue_riskLevel = ''MEDIUM'',
       issue_position = 10, detectionMethod = ''pattern''\<rparr>]"
    by code_simp
  have h: "''Foo LLC'' = [] @ ''Foo'' @ '' '' @ ''LLC'' @ [] \<and>
      ''Foo'' \<noteq> [] \<and> (\<forall>c\<in>set ''Foo''. is_word_char c) \<and>
      (([] :: string) = [] \<or> \<not> is_word_char (last [])) \<and>
      '' '' \<noteq> [] \<and> (\<forall>c\<in>set '' ''. is_space_char c) \<and>
      ''LLC'' \<in> set companyIndicators \<and> list_all2 eq_ignore_case ''LLC'' ''LLC'' \<and>
      (([] :: string) = [] \<or> \<not> is_word_char (hd []))"
    by (simp add: is_word_char_def word_chars_def lower_chars_def upper_chars_def digit_chars_def
          is_space_char_def space_chars_def companyIndicators_def eq_ignore_case_def)
  from detectCompanyNames_findings
         [of "''Foo LLC''" "initial_analysis (JString ''Foo LLC'')", THEN conjunct2, THEN conjunct2,
          rule_format, OF h]
  obtain f u v where f: "f \<in> set (found companyPattern ''companyName'' ''MEDIUM'' ''Foo LLC'')"
    and u: "''Foo LLC'' = u @ issue_value f @ v" "length u \<le> length ([] :: string)"
      "length u = length ([] :: string) \<longrightarrow> issue_value f = ''Foo'' @ '' '' @ ''LLC''"
    by blast
  from u(2,3) have "issue_value f = ''Foo LLC''" by simp
  with f have foo: "''Foo LLC'' \<in> issue_value ` set (found companyPattern ''companyName'' ''MEDIUM'' ''Foo LLC'')"
    by force
  from detectCompanyNames_findings [of "''I work at Acme Corp''" "initial_analysis (JString ''I work at Acme Corp'')"]
  have "\<exists>w sp suf. ''Acme Corp'' = w @ sp @ suf \<and>
         w \<noteq> [] \<and> (\<forall>c\<in>set w. is_word_char c) \<and>
         sp \<noteq> [] \<and> (\<forall>c\<in>set sp. is_space_char c) \<and>
         (\<exists>ind\<in>set companyIndicators. list_all2 eq_ignore_case suf ind)"
    unfolding a by simp
  with a foo show ?thesis by simp
qed

text \<open>
  Claim C8 as stated fails: the word before the indicator need not be capitalized, and the
  indicator is compared without regard to case, so \<^verbatim>\<open>my company\<close> is reported.
\<close>

theorem lower_case_company_counterexample:
  "detectCompanyNames (JString ''my company'') (initial_analysis (JString ''my company'')) =
     Inr ((initial_analysis (JString ''my company''))
            \<lparr>detectedIssues :=
               [\<lparr>issue_type = ''companyName'', issue_value = ''my company'',
                 issue_riskLevel = ''MEDIUM'', issue_position = 0,
                 detectionMethod = ''pattern''\<rparr>]\<rparr>) \<and>
   \<not> capitalized ''my company''"
  by code_simp

section \<open>Scenarios of the test suite\<close>

text \<open>
  The model on texts of \<^verbatim>\<open>tests/__tests__/filters/PrivacyFilter.test.js\<close>, with the results
  that the tests expect.
\<close>

lemma test_email:
  "detectedIssues (analyzeContent None (JString ''Contact me at john.doe@example.com for more info'')) =
     [\<lparr>issue_type = ''email'', issue_value = ''john.doe@example.com'', issue_riskLevel = ''HIGH'',
       issue_position = 14, detectionMethod = ''pattern''\<rparr>]"
  by code_simp

lemma test_same_pattern_twice:
  "filteredContent (analyzeContent None (JString ''Email john@test.com and mary@test.com'')) =
     JString ''Email [EMAIL_REDACTED] and [EMAIL_REDACTED]''"
  by code_simp

lemma test_phone_and_email:
  "filteredContent (analyzeContent None (JString ''Email me at test@example.com or call (555) 123-4567'')) =
     JString ''Email me at [EMAIL_REDACTED] or call [PHONE_REDACTED]''"
  by code_simp

lemma test_medium_risk:
  "riskLevel (analyzeContent None (JString ''I work at 123 Main Street in Springfield'')) = ''medium''"
  by code_simp

lemma test_multiple_medium_risks:
  "riskLevel (analyzeContent None
     (JString ''Office at 123 Main St, zip 12345, in Springfield near downtown'')) = ''high''"
  by code_simp

lemma test_whitespace_only:
  "analyzeContent None (JString [CHR '' '', CHR '' '', CHR 0x0A, CHR 0x09, CHR '' '']) =
     initial_analysis (JString [CHR '' '', CHR '' '', CHR 0x0A, CHR 0x09, CHR '' ''])"
  by code_simp

end
